theory Spec2Isabelle
  imports Main "HOL-Library.AList" "HOL-Library.Multiset"
begin

section \<open>The crossword CSP solver of generate.py\<close>

text \<open>
  The class \<open>CrosswordCreator\<close> of \<open>generate.py\<close> holds a crossword (read only) and the
  dictionary \<open>self.domains\<close>, from each variable to its set of candidate words. Python
  dictionaries keep their keys in insertion order and Python sets are iterated in some
  fixed order, and the code iterates over both; so a dictionary is an association list
  in insertion order and a set is the list of its elements in iteration order. Every
  theorem below is about arbitrary such lists, hence about every iteration order.

  Everything that raises in Python is a branch of the model: a missing dictionary key
  and a \<open>set.remove\<close> of an absent element are \<open>KeyError\<close>, an index past the end of a
  word is \<open>IndexError\<close>, \<open>min\<close> of an empty sequence is \<open>ValueError\<close>.
\<close>

datatype error = KeyError | IndexError | ValueError

datatype direction = ACROSS | DOWN

text \<open>A \<open>Variable\<close> is a slot: its starting cell, its direction and its length.\<close>

record variable =
  var_i :: nat
  var_j :: nat
  var_direction :: direction
  var_length :: nat

text \<open>
  The module \<open>crossword.py\<close> is not part of the sources, so the \<open>Crossword\<close> object is a
  parameter: its variables, its vocabulary and its overlap table, the dictionary from an
  ordered pair of variables to the index pair \<open>(i, j)\<close> of the shared cell. Pairs of
  variables that share no cell have no entry. (Width, height and the grid structure are
  only read by the renderer.)
\<close>

record crossword =
  variables :: "variable list"
  words :: "string list"
  overlaps :: "((variable \<times> variable) \<times> (nat \<times> nat)) list"

type_synonym domains = "(variable \<times> string list) list"
type_synonym assignment = "(variable \<times> string) list"
type_synonym arc = "variable \<times> variable"

text \<open>
  Modelled from the spec: \<open>Crossword.neighbors\<close> lives in the missing \<open>crossword.py\<close>.
  The spec describes it as a derived view over the overlap relation: the set of variables
  overlapping a given variable, the variable itself excluded.
\<close>

definition neighbors :: "crossword \<Rightarrow> variable \<Rightarrow> variable list" where
  "neighbors c var =
     filter (\<lambda>v. v \<noteq> var \<and> map_of (overlaps c) (var, v) \<noteq> None) (variables c)"

text \<open>\<open>m[k]\<close> on a dictionary and \<open>w[k]\<close> on a string, with a non-negative index.\<close>

definition getitem :: "('k \<times> 'v) list \<Rightarrow> 'k \<Rightarrow> error + 'v" where
  "getitem m k = (case map_of m k of None \<Rightarrow> Inl KeyError | Some v \<Rightarrow> Inr v)"

definition char_at :: "string \<Rightarrow> nat \<Rightarrow> error + char" where
  "char_at w k = (if k < length w then Inr (w ! k) else Inl IndexError)"

text \<open>\<open>self.domains[var].remove(word)\<close>: the set of \<open>var\<close> loses \<open>word\<close>, in place.\<close>

definition remove_word :: "variable \<Rightarrow> string \<Rightarrow> domains \<Rightarrow> error + domains" where
  "remove_word var word d =
     (case getitem d var of
        Inl e \<Rightarrow> Inl e
      | Inr ws \<Rightarrow>
          if word \<in> set ws then Inr (AList.update var (removeAll word ws) d)
          else Inl KeyError)"

subsection \<open>\<open>__init__\<close> and \<open>enforce_node_consistency\<close>\<close>

text \<open>Each variable starts with its own copy of the vocabulary.\<close>

definition init_domains :: "crossword \<Rightarrow> domains" where
  "init_domains c = map (\<lambda>var. (var, words c)) (variables c)"

text \<open>
  The inner loop \<open>for word in set(self.domains[var])\<close> runs over a copy of the set
  (\<open>remdups\<close> of the list, the list itself when it has no repetition).
\<close>

fun enforce_words :: "variable \<Rightarrow> string list \<Rightarrow> domains \<Rightarrow> error + domains" where
  "enforce_words var [] d = Inr d"
| "enforce_words var (word # rest) d =
     (if length word \<noteq> var_length var then
        (case remove_word var word d of
           Inl e \<Rightarrow> Inl e
         | Inr d' \<Rightarrow> enforce_words var rest d')
      else enforce_words var rest d)"

fun enforce_vars :: "variable list \<Rightarrow> domains \<Rightarrow> error + domains" where
  "enforce_vars [] d = Inr d"
| "enforce_vars (var # rest) d =
     (case getitem d var of
        Inl e \<Rightarrow> Inl e
      | Inr ws \<Rightarrow>
          (case enforce_words var (remdups ws) d of
             Inl e \<Rightarrow> Inl e
           | Inr d' \<Rightarrow> enforce_vars rest d'))"

definition enforce_node_consistency :: "domains \<Rightarrow> error + domains" where
  "enforce_node_consistency d = enforce_vars (map fst d) d"

subsection \<open>\<open>revise\<close>\<close>

text \<open>
  The generator \<open>all(word_x[i] != word_y[j] for word_y in self.domains[y])\<close>: it stops at
  the first candidate of \<open>y\<close> that agrees, and it is True on an empty domain.
\<close>

fun all_differ :: "string \<Rightarrow> nat \<Rightarrow> nat \<Rightarrow> string list \<Rightarrow> error + bool" where
  "all_differ word_x i j [] = Inr True"
| "all_differ word_x i j (word_y # rest) =
     (case char_at word_x i of
        Inl e \<Rightarrow> Inl e
      | Inr a \<Rightarrow>
          (case char_at word_y j of
             Inl e \<Rightarrow> Inl e
           | Inr b \<Rightarrow> if a \<noteq> b then all_differ word_x i j rest else Inr False))"

text \<open>
  The loop \<open>for word_x in set(self.domains[x])\<close>; its state is the flag \<open>revised\<close> and the
  domain store, which the body reads again (\<open>self.domains[y]\<close>) at every round.
\<close>

fun revise_loop ::
  "nat \<Rightarrow> nat \<Rightarrow> variable \<Rightarrow> variable \<Rightarrow> string list \<Rightarrow> bool \<Rightarrow> domains \<Rightarrow> error + (bool \<times> domains)"
where
  "revise_loop i j x y [] revised d = Inr (revised, d)"
| "revise_loop i j x y (word_x # rest) revised d =
     (case getitem d y of
        Inl e \<Rightarrow> Inl e
      | Inr dy \<Rightarrow>
          (case all_differ word_x i j dy of
             Inl e \<Rightarrow> Inl e
           | Inr True \<Rightarrow>
               (case remove_word x word_x d of
                  Inl e \<Rightarrow> Inl e
                | Inr d' \<Rightarrow> revise_loop i j x y rest True d')
           | Inr False \<Rightarrow> revise_loop i j x y rest revised d))"

definition revise :: "crossword \<Rightarrow> domains \<Rightarrow> variable \<Rightarrow> variable \<Rightarrow> error + (bool \<times> domains)" where
  "revise c d x y =
     (case map_of (overlaps c) (x, y) of
        None \<Rightarrow> Inr (False, d)
      | Some (i, j) \<Rightarrow>
          (case getitem d x of
             Inl e \<Rightarrow> Inl e
           | Inr dx \<Rightarrow> revise_loop i j x y (remdups dx) False d))"

subsection \<open>\<open>ac3\<close>\<close>

definition default_arcs :: "crossword \<Rightarrow> domains \<Rightarrow> arc list" where
  "default_arcs c d = concat (map (\<lambda>x. map (\<lambda>y. (x, y)) (neighbors c x)) (map fst d))"

text \<open>
  The worklist loop of \<open>ac3\<close>: \<open>queue.pop(0)\<close> takes the head, \<open>queue.append\<close> adds at the
  end, \<open>neighbors(x) - {y}\<close> is the neighbour set without \<open>y\<close>.
\<close>

function ac3_loop :: "crossword \<Rightarrow> domains \<Rightarrow> arc list \<Rightarrow> error + (bool \<times> domains)" where
  "ac3_loop c d [] = Inr (True, d)"
| "ac3_loop c d ((x, y) # queue) =
     (case revise c d x y of
        Inl e \<Rightarrow> Inl e
      | Inr (revised, d') \<Rightarrow>
          if revised then
            (case getitem d' x of
               Inl e \<Rightarrow> Inl e
             | Inr dx \<Rightarrow>
                 if dx = [] then Inr (False, d')
                 else ac3_loop c d' (queue @ map (\<lambda>z. (z, x)) (removeAll y (neighbors c x))))
          else ac3_loop c d' queue)"
  by pat_completeness auto


definition ac3 :: "crossword \<Rightarrow> domains \<Rightarrow> arc list option \<Rightarrow> error + (bool \<times> domains)" where
  "ac3 c d arcs =
     ac3_loop c d (case arcs of None \<Rightarrow> default_arcs c d | Some given \<Rightarrow> given)"


subsection \<open>\<open>assignment_complete\<close> and \<open>consistent\<close>\<close>

text \<open>
  An assignment is a dictionary from variables to words. \<open>assignment[var] = value\<close> is
  \<open>AList.update\<close>: it overwrites the entry of a key that is present and appends a new
  entry otherwise. \<open>del assignment[var]\<close> raises KeyError on a missing key.
\<close>

definition delitem :: "assignment \<Rightarrow> variable \<Rightarrow> error + assignment" where
  "delitem a var =
     (if var \<in> fst ` set a then Inr (AList.delete var a) else Inl KeyError)"

definition assignment_complete :: "crossword \<Rightarrow> assignment \<Rightarrow> bool" where
  "assignment_complete c a = (set (map fst a) = set (variables c))"

text \<open>The loop \<open>for var, word in assignment.items()\<close> of \<open>consistent\<close>.\<close>

fun lengths_match :: "assignment \<Rightarrow> bool" where
  "lengths_match [] = True"
| "lengths_match ((var, word) # rest) =
     (if length word \<noteq> var_length var then False else lengths_match rest)"

text \<open>
  The loop \<open>for neighbor in self.crossword.neighbors(var)\<close> of \<open>consistent\<close>; False is the
  early \<open>return False\<close>, True is the loop running to its end.
\<close>

fun check_neighbors :: "crossword \<Rightarrow> assignment \<Rightarrow> variable \<Rightarrow> variable list \<Rightarrow> error + bool" where
  "check_neighbors c a var [] = Inr True"
| "check_neighbors c a var (neighbor # rest) =
     (if neighbor \<in> fst ` set a then
        (case getitem (overlaps c) (var, neighbor) of
           Inl e \<Rightarrow> Inl e
         | Inr (i, j) \<Rightarrow>
             (case getitem a var of
                Inl e \<Rightarrow> Inl e
              | Inr word_v \<Rightarrow>
                  (case char_at word_v i of
                     Inl e \<Rightarrow> Inl e
                   | Inr cv \<Rightarrow>
                       (case getitem a neighbor of
                          Inl e \<Rightarrow> Inl e
                        | Inr word_n \<Rightarrow>
                            (case char_at word_n j of
                               Inl e \<Rightarrow> Inl e
                             | Inr cn \<Rightarrow>
                                 if cv \<noteq> cn then Inr False
                                 else check_neighbors c a var rest)))))
      else check_neighbors c a var rest)"

fun check_overlaps :: "crossword \<Rightarrow> assignment \<Rightarrow> variable list \<Rightarrow> error + bool" where
  "check_overlaps c a [] = Inr True"
| "check_overlaps c a (var # rest) =
     (case check_neighbors c a var (neighbors c var) of
        Inl e \<Rightarrow> Inl e
      | Inr ok \<Rightarrow> if ok then check_overlaps c a rest else Inr False)"

definition consistent :: "crossword \<Rightarrow> assignment \<Rightarrow> error + bool" where
  "consistent c a =
     (if length (remdups (map snd a)) \<noteq> length a then Inr False
      else if \<not> lengths_match a then Inr False
      else check_overlaps c a (map fst a))"

subsection \<open>\<open>order_domain_values\<close>\<close>

text \<open>The loop \<open>for neighbor_value in self.domains[neighbor]\<close> of \<open>count_conflicts\<close>.\<close>

fun count_values :: "string \<Rightarrow> nat \<Rightarrow> nat \<Rightarrow> string list \<Rightarrow> nat \<Rightarrow> error + nat" where
  "count_values val i j [] conflicts = Inr conflicts"
| "count_values val i j (neighbor_value # rest) conflicts =
     (case char_at val i of
        Inl e \<Rightarrow> Inl e
      | Inr a \<Rightarrow>
          (case char_at neighbor_value j of
             Inl e \<Rightarrow> Inl e
           | Inr b \<Rightarrow>
               count_values val i j rest (if a \<noteq> b then conflicts + 1 else conflicts)))"

text \<open>The loop \<open>for neighbor in self.crossword.neighbors(var)\<close> of \<open>count_conflicts\<close>.\<close>

fun count_neighbors ::
  "crossword \<Rightarrow> domains \<Rightarrow> assignment \<Rightarrow> variable \<Rightarrow> string \<Rightarrow> variable list \<Rightarrow> nat \<Rightarrow> error + nat"
where
  "count_neighbors c d a var val [] conflicts = Inr conflicts"
| "count_neighbors c d a var val (neighbor # rest) conflicts =
     (if neighbor \<notin> fst ` set a then
        (case getitem (overlaps c) (var, neighbor) of
           Inl e \<Rightarrow> Inl e
         | Inr (i, j) \<Rightarrow>
             (case getitem d neighbor of
                Inl e \<Rightarrow> Inl e
              | Inr dn \<Rightarrow>
                  (case count_values val i j dn conflicts of
                     Inl e \<Rightarrow> Inl e
                   | Inr conflicts' \<Rightarrow> count_neighbors c d a var val rest conflicts')))
      else count_neighbors c d a var val rest conflicts)"

definition count_conflicts ::
  "crossword \<Rightarrow> domains \<Rightarrow> assignment \<Rightarrow> variable \<Rightarrow> string \<Rightarrow> error + nat"
where
  "count_conflicts c d a var val = count_neighbors c d a var val (neighbors c var) 0"

text \<open>
  \<open>sorted(xs, key=f)\<close> computes the key of every element, from left to right, and then
  sorts stably by the keys; \<open>sort_key\<close> is a stable insertion sort.
\<close>

fun map_result :: "('a \<Rightarrow> error + 'b) \<Rightarrow> 'a list \<Rightarrow> error + 'b list" where
  "map_result f [] = Inr []"
| "map_result f (x # xs) =
     (case f x of
        Inl e \<Rightarrow> Inl e
      | Inr y \<Rightarrow> (case map_result f xs of Inl e \<Rightarrow> Inl e | Inr ys \<Rightarrow> Inr (y # ys)))"

definition order_domain_values ::
  "crossword \<Rightarrow> domains \<Rightarrow> variable \<Rightarrow> assignment \<Rightarrow> error + string list"
where
  "order_domain_values c d var a =
     (case getitem d var of
        Inl e \<Rightarrow> Inl e
      | Inr dv \<Rightarrow>
          (case map_result (count_conflicts c d a var) dv of
             Inl e \<Rightarrow> Inl e
           | Inr keys \<Rightarrow> Inr (map snd (sort_key fst (zip keys dv)))))"

subsection \<open>\<open>select_unassigned_variable\<close>\<close>

text \<open>The key \<open>(mrv(var), -degree(var))\<close>; Python compares tuples lexicographically.\<close>

definition select_key :: "crossword \<Rightarrow> domains \<Rightarrow> variable \<Rightarrow> error + (nat \<times> int)" where
  "select_key c d v =
     (case getitem d v of
        Inl e \<Rightarrow> Inl e
      | Inr dv \<Rightarrow> Inr (length dv, - int (length (neighbors c v))))"

definition key_less :: "nat \<times> int \<Rightarrow> nat \<times> int \<Rightarrow> bool" where
  "key_less k k' = (fst k < fst k' \<or> (fst k = fst k' \<and> snd k < snd k'))"

text \<open>\<open>min(xs, key=f)\<close> keeps the first element whose key is smallest.\<close>

fun min_loop ::
  "crossword \<Rightarrow> domains \<Rightarrow> variable list \<Rightarrow> variable \<Rightarrow> nat \<times> int \<Rightarrow> error + variable"
where
  "min_loop c d [] best best_key = Inr best"
| "min_loop c d (v # rest) best best_key =
     (case select_key c d v of
        Inl e \<Rightarrow> Inl e
      | Inr k \<Rightarrow>
          if key_less k best_key then min_loop c d rest v k
          else min_loop c d rest best best_key)"

definition unassigned :: "crossword \<Rightarrow> assignment \<Rightarrow> variable list" where
  "unassigned c a = filter (\<lambda>v. v \<notin> fst ` set a) (variables c)"

definition select_unassigned_variable ::
  "crossword \<Rightarrow> domains \<Rightarrow> assignment \<Rightarrow> error + variable"
where
  "select_unassigned_variable c d a =
     (case unassigned c a of
        [] \<Rightarrow> Inl ValueError
      | v # rest \<Rightarrow>
          (case select_key c d v of
             Inl e \<Rightarrow> Inl e
           | Inr k \<Rightarrow> min_loop c d rest v k))"

subsection \<open>\<open>backtrack\<close>\<close>

text \<open>
  \<open>backtrack\<close> mutates the dictionary it is given and returns either that same dictionary
  or None, so the model returns the result together with the state it leaves behind: the
  domain store and the assignment. \<open>try_values\<close> is the loop
  \<open>for value in self.order_domain_values(var, assignment)\<close>. The test \<open>if result:\<close> is
  Python truthiness: None and the empty dictionary are both false.
\<close>

definition truthy :: "assignment option \<Rightarrow> bool" where
  "truthy result = (case result of None \<Rightarrow> False | Some r \<Rightarrow> r \<noteq> [])"

function backtrack ::
  "crossword \<Rightarrow> domains \<Rightarrow> assignment \<Rightarrow> error + (assignment option \<times> domains \<times> assignment)"
and try_values ::
  "crossword \<Rightarrow> variable \<Rightarrow> string list \<Rightarrow> domains \<Rightarrow> assignment
   \<Rightarrow> error + (assignment option \<times> domains \<times> assignment)"
where
  "backtrack c d a =
     (if assignment_complete c a then Inr (Some a, d, a)
      else
        (case select_unassigned_variable c d a of
           Inl e \<Rightarrow> Inl e
         | Inr var \<Rightarrow>
             (case order_domain_values c d var a of
                Inl e \<Rightarrow> Inl e
              | Inr vals \<Rightarrow> try_values c var vals d a)))"
| "try_values c var [] d a = Inr (None, d, a)"
| "try_values c var (val # rest) d a =
     (case consistent c (AList.update var val a) of
        Inl e \<Rightarrow> Inl e
      | Inr ok \<Rightarrow>
          if ok then
            (case backtrack c d (AList.update var val a) of
               Inl e \<Rightarrow> Inl e
             | Inr (result, d2, a2) \<Rightarrow>
                 if truthy result then Inr (result, d2, a2)
                 else
                   (case delitem a2 var of
                      Inl e \<Rightarrow> Inl e
                    | Inr a3 \<Rightarrow> try_values c var rest d2 a3))
          else
            (case delitem (AList.update var val a) var of
               Inl e \<Rightarrow> Inl e
             | Inr a3 \<Rightarrow> try_values c var rest d a3))"
  by pat_completeness auto

subsection \<open>\<open>solve\<close>\<close>

text \<open>
  \<open>solve\<close> makes three calls in a row. The model keeps, next to the result, the list of
  the methods that \<open>solve\<close> has called when it returns or raises.
\<close>

datatype call = Call_enforce_node_consistency | Call_ac3 | Call_backtrack

definition solve_traced :: "crossword \<Rightarrow> call list \<times> (error + assignment option)" where
  "solve_traced c =
     (case enforce_node_consistency (init_domains c) of
        Inl e \<Rightarrow> ([Call_enforce_node_consistency], Inl e)
      | Inr d1 \<Rightarrow>
          (case ac3 c d1 None of
             Inl e \<Rightarrow> ([Call_enforce_node_consistency, Call_ac3], Inl e)
           | Inr (satisfiable, d2) \<Rightarrow>
               (case backtrack c d2 [] of
                  Inl e \<Rightarrow> ([Call_enforce_node_consistency, Call_ac3, Call_backtrack], Inl e)
                | Inr (result, d3, a) \<Rightarrow>
                    ([Call_enforce_node_consistency, Call_ac3, Call_backtrack], Inr result))))"

definition solve :: "crossword \<Rightarrow> error + assignment option" where
  "solve c = snd (solve_traced c)"

subsection \<open>Example puzzles\<close>

text \<open>
  The three-slot puzzle of the spec: two across slots of length 3, each crossing one down
  slot of length 3 in a single cell. \<open>slot_down\<close> shares its first cell with
  \<open>slot_top\<close> and its last cell with \<open>slot_bottom\<close>.
\<close>

definition slot_top :: variable where
  "slot_top = \<lparr>var_i = 0, var_j = 0, var_direction = ACROSS, var_length = 3\<rparr>"

definition slot_down :: variable where
  "slot_down = \<lparr>var_i = 0, var_j = 0, var_direction = DOWN, var_length = 3\<rparr>"

definition slot_bottom :: variable where
  "slot_bottom = \<lparr>var_i = 2, var_j = 0, var_direction = ACROSS, var_length = 3\<rparr>"

definition puzzle :: "string list \<Rightarrow> crossword" where
  "puzzle vocabulary =
     \<lparr>variables = [slot_top, slot_down, slot_bottom],
      words = vocabulary,
      overlaps =
        [((slot_top, slot_down), (0, 0)), ((slot_down, slot_top), (0, 0)),
         ((slot_bottom, slot_down), (0, 2)), ((slot_down, slot_bottom), (2, 0))]\<rparr>"

text \<open>A grid with no slot at all.\<close>

definition empty_puzzle :: crossword where
  "empty_puzzle = \<lparr>variables = [], words = [''CAT''], overlaps = []\<rparr>"

lemmas example_defs = slot_top_def slot_down_def slot_bottom_def puzzle_def empty_puzzle_def

subsection \<open>Vocabulary of the properties\<close>

text \<open>
  A candidate \<open>w\<close> of \<open>x\<close> is supported by the domain \<open>dy\<close> of \<open>y\<close>, for the overlap
  \<open>(i, j)\<close>, when some candidate of \<open>y\<close> has at \<open>j\<close> the letter that \<open>w\<close> has at \<open>i\<close>.
\<close>

definition supported :: "nat \<Rightarrow> nat \<Rightarrow> string list \<Rightarrow> string \<Rightarrow> bool" where
  "supported i j dy w = (\<exists>w' \<in> set dy. w ! i = w' ! j)"

text \<open>The domain store after the variables in \<open>V\<close> were made node consistent.\<close>

definition keep_fitting :: "variable set \<Rightarrow> domains \<Rightarrow> domains" where
  "keep_fitting V d =
     map (\<lambda>(v, ws). (v, if v \<in> V then filter (\<lambda>w. length w = var_length v) ws else ws)) d"

text \<open>
  The conflicts of a value \<open>val\<close> of \<open>var\<close>: the pairs \<open>(n, w)\<close> of an unassigned neighbour
  \<open>n\<close> of \<open>var\<close> and a candidate \<open>w\<close> of \<open>n\<close> whose letter at the overlap differs from the
  letter of \<open>val\<close> there.
\<close>

definition differing :: "crossword \<Rightarrow> domains \<Rightarrow> variable \<Rightarrow> string \<Rightarrow> variable \<Rightarrow> string set" where
  "differing c d var val n =
     {w. \<exists>i j dn. map_of (overlaps c) (var, n) = Some (i, j) \<and> map_of d n = Some dn \<and>
          w \<in> set dn \<and> val ! i \<noteq> w ! j}"

definition conflict_pairs ::
  "crossword \<Rightarrow> domains \<Rightarrow> assignment \<Rightarrow> variable \<Rightarrow> string \<Rightarrow> (variable \<times> string) set"
where
  "conflict_pairs c d a var val =
     {(n, w). n \<in> set (neighbors c var) \<and> n \<notin> fst ` set a \<and> w \<in> differing c d var val n}"

text \<open>
  Modelled from the spec: the overlap table is built by the missing \<open>crossword.py\<close>.
  The spec says of it that an entry joins two different variables of the puzzle, that its
  indices are positions in the words of the two slots, and that the pair in the other
  order is recorded with its own, mirrored index pair.
\<close>

definition wf_crossword :: "crossword \<Rightarrow> bool" where
  "wf_crossword c =
     (\<forall>((x, y), (i, j)) \<in> set (overlaps c).
        x \<in> set (variables c) \<and> y \<in> set (variables c) \<and> x \<noteq> y \<and>
        i < var_length x \<and> j < var_length y \<and> map_of (overlaps c) (y, x) = Some (j, i))"

text \<open>A store is node consistent when every candidate has the length of its variable.\<close>

definition node_consistent :: "domains \<Rightarrow> bool" where
  "node_consistent d = (\<forall>(v, ws) \<in> set d. \<forall>w \<in> set ws. length w = var_length v)"

text \<open>
  The arc \<open>(x, y)\<close> with overlap \<open>(i, j)\<close> is consistent in a store when both variables
  have a domain and every candidate of \<open>x\<close> is supported by the domain of \<open>y\<close>. The
  invariant of the worklist loop: an arc that is not in the queue is consistent.
\<close>

definition arc_ok :: "domains \<Rightarrow> variable \<Rightarrow> variable \<Rightarrow> nat \<Rightarrow> nat \<Rightarrow> bool" where
  "arc_ok d x y i j =
     (\<exists>dx dy. map_of d x = Some dx \<and> map_of d y = Some dy \<and> (\<forall>w \<in> set dx. supported i j dy w))"

definition arcs_inv :: "crossword \<Rightarrow> domains \<Rightarrow> arc list \<Rightarrow> bool" where
  "arcs_inv c d queue =
     (\<forall>x y i j. map_of (overlaps c) (x, y) = Some (i, j) \<longrightarrow>
        (x, y) \<in> set queue \<or> arc_ok d x y i j)"

section \<open>Termination\<close>

definition domains_size :: "domains \<Rightarrow> nat" where
  "domains_size d = sum_list (map (\<lambda>(v, ws). length ws) d)"

lemma domains_size_update:
  "map_of d x = Some ws \<Longrightarrow>
   domains_size (AList.update x ws' d) + length ws = domains_size d + length ws'"
  by (induction d) (auto simp: domains_size_def)

lemma remove_word_size:
  assumes "remove_word x w d = Inr d'"
  shows "domains_size d' < domains_size d"
proof -
  from assms obtain ws where ws: "map_of d x = Some ws" "w \<in> set ws"
    and d': "d' = AList.update x (removeAll w ws) d"
    by (auto simp: remove_word_def getitem_def split: option.splits if_splits)
  have "length (removeAll w ws) < length ws"
    using ws(2) by (simp add: length_removeAll_less)
  with domains_size_update [OF ws(1), where ws' = "removeAll w ws"] d' show ?thesis
    by simp
qed

lemma revise_loop_size:
  "revise_loop i j x y ws rv d = Inr (r, d') \<Longrightarrow>
   domains_size d' \<le> domains_size d \<and> (r \<and> \<not> rv \<longrightarrow> domains_size d' < domains_size d)
   \<and> (\<not> r \<longrightarrow> d' = d) \<and> (rv \<longrightarrow> r)"
proof (induction ws arbitrary: rv d)
  case Nil
  then show ?case by simp
next
  case (Cons w ws)
  from Cons.prems obtain dy b where dy: "getitem d y = Inr dy"
    and b: "all_differ w i j dy = Inr b"
    by (auto split: sum.splits)
  show ?case
  proof (cases b)
    case True
    with Cons.prems dy b obtain d1 where d1: "remove_word x w d = Inr d1"
      and rec: "revise_loop i j x y ws True d1 = Inr (r, d')"
      by (auto split: sum.splits)
    from Cons.IH [OF rec] remove_word_size [OF d1] show ?thesis by auto
  next
    case False
    with Cons.prems dy b have "revise_loop i j x y ws rv d = Inr (r, d')"
      by simp
    from Cons.IH [OF this] show ?thesis by simp
  qed
qed

lemma revise_size:
  assumes "revise c d x y = Inr (r, d')"
  shows "if r then domains_size d' < domains_size d else d' = d"
proof (cases "map_of (overlaps c) (x, y)")
  case None
  with assms show ?thesis by (simp add: revise_def)
next
  case (Some ij)
  obtain i j where ij: "ij = (i, j)" by (cases ij)
  from assms Some ij obtain dx where
    "revise_loop i j x y (remdups dx) False d = Inr (r, d')"
    by (auto simp: revise_def split: sum.splits)
  from revise_loop_size [OF this] show ?thesis by auto
qed

lemma ac3_loop_total: "All ac3_loop_dom"
proof (relation "measures [\<lambda>(c, d, queue). domains_size d, \<lambda>(c, d, queue). length queue]")
  show "wf (measures [\<lambda>(c, d, queue). domains_size d, \<lambda>(c :: crossword, d, queue :: arc list). length queue])"
    by simp
next
  fix c d x y queue and r :: "bool \<times> domains" and revised d' dx
  assume "revise c d x y = Inr r" "(revised, d') = r" "revised"
  then have "revise c d x y = Inr (True, d')" by auto
  from revise_size [OF this]
  show "((c, d', queue @ map (\<lambda>z. (z, x)) (removeAll y (neighbors c x))), (c, d, (x, y) # queue))
        \<in> measures [\<lambda>(c, d, queue). domains_size d, \<lambda>(c, d, queue). length queue]"
    by simp
next
  fix c d x y queue and r :: "bool \<times> domains" and revised d'
  assume "revise c d x y = Inr r" "(revised, d') = r" "\<not> revised"
  then have "revise c d x y = Inr (False, d')" by auto
  from revise_size [OF this]
  show "((c, d', queue), (c, d, (x, y) # queue))
        \<in> measures [\<lambda>(c, d, queue). domains_size d, \<lambda>(c, d, queue). length queue]"
    by simp
qed


termination ac3_loop
  by (rule ac3_loop_total)

lemma delete_update_fresh:
  "var \<notin> fst ` set a \<Longrightarrow> AList.delete var (AList.update var val a) = a"
  by (induction a) auto

lemma keys_update: "fst ` set (AList.update var val a) = insert var (fst ` set a)"
  by (induction a) auto

lemma keys_delete: "fst ` set (AList.delete var a) = fst ` set a - {var}"
  by (induction a) auto

lemma delitem_update:
  "delitem (AList.update var val a) var = Inr (AList.delete var (AList.update var val a))"
  by (simp add: delitem_def keys_update)

lemma min_loop_mem:
  "min_loop c d vs best bk = Inr var \<Longrightarrow> var = best \<or> var \<in> set vs"
  by (induction vs arbitrary: best bk) (auto split: sum.splits if_splits)

lemma select_unassigned:
  assumes "select_unassigned_variable c d a = Inr var"
  shows "var \<in> set (variables c) \<and> var \<notin> fst ` set a"
proof -
  from assms obtain v rest k where u: "unassigned c a = v # rest"
    and m: "min_loop c d rest v k = Inr var"
    by (auto simp: select_unassigned_variable_def split: list.splits sum.splits)
  from min_loop_mem [OF m] u have "var \<in> set (unassigned c a)" by auto
  then show ?thesis by (simp add: unassigned_def)
qed

lemma backtrack_restores_partial:
  "backtrack_try_values_dom (Inl (c, d, a)) \<Longrightarrow>
     (\<forall>r d' a'. backtrack c d a = Inr (r, d', a') \<longrightarrow> d' = d \<and> (\<not> truthy r \<longrightarrow> a' = a))"
  "backtrack_try_values_dom (Inr (c, var, vals, d, a)) \<Longrightarrow>
     (\<forall>r d' a'. var \<notin> fst ` set a \<longrightarrow> try_values c var vals d a = Inr (r, d', a')
        \<longrightarrow> d' = d \<and> (\<not> truthy r \<longrightarrow> a' = a))"
proof (induction rule: backtrack_try_values.pinduct)
  case (1 c d a)
  show ?case
  proof (intro allI impI)
    fix r d' a'
    assume res: "backtrack c d a = Inr (r, d', a')"
    show "d' = d \<and> (\<not> truthy r \<longrightarrow> a' = a)"
    proof (cases "assignment_complete c a")
      case True
      with res 1(1) show ?thesis by (simp add: backtrack.psimps)
    next
      case False
      with res 1(1) obtain var vals where
        sel: "select_unassigned_variable c d a = Inr var"
        and ord: "order_domain_values c d var a = Inr vals"
        and tv: "try_values c var vals d a = Inr (r, d', a')"
        by (auto simp: backtrack.psimps split: sum.splits)
      from select_unassigned [OF sel] have "var \<notin> fst ` set a" by simp
      with 1(2) [OF False sel ord] tv show ?thesis by blast
    qed
  qed
next
  case (2 c var d a)
  then show ?case by (simp add: try_values.psimps)
next
  case (3 c var val rest d a)
  show ?case
  proof (intro allI impI)
    fix r d' a'
    assume fresh: "var \<notin> fst ` set a"
      and res: "try_values c var (val # rest) d a = Inr (r, d', a')"
    let ?a1 = "AList.update var val a"
    have del: "delitem ?a1 var = Inr a"
      using fresh by (simp add: delitem_update delete_update_fresh)
    from res 3(1) obtain ok where ok: "consistent c ?a1 = Inr ok"
      by (auto simp: try_values.psimps split: sum.splits)
    show "d' = d \<and> (\<not> truthy r \<longrightarrow> a' = a)"
    proof (cases ok)
      case False
      with res 3(1) ok del have "try_values c var rest d a = Inr (r, d', a')"
        by (simp add: try_values.psimps)
      with 3(4) [OF ok False del] fresh show ?thesis by blast
    next
      case True
      with res 3(1) ok obtain result d2 a2 where
        bt: "backtrack c d ?a1 = Inr (result, d2, a2)"
        by (auto simp: try_values.psimps split: sum.splits)
      from 3(2) [OF ok True] bt have d2: "d2 = d" and a2: "\<not> truthy result \<longrightarrow> a2 = ?a1"
        by blast+
      show ?thesis
      proof (cases "truthy result")
        case t: True
        with res 3(1) ok True bt d2 show ?thesis
          by (simp add: try_values.psimps)
      next
        case f: False
        with a2 have a2': "a2 = ?a1" by simp
        with res 3(1) ok True bt f del d2
        have tv: "try_values c var rest d2 a = Inr (r, d', a')"
          by (simp add: try_values.psimps)
        have "delitem a2 var = Inr a" using a2' del by simp
        from 3(3) [OF ok True bt refl refl f this] tv fresh d2 show ?thesis
          by blast
      qed
    qed
  qed
qed

definition unassigned_but :: "crossword \<Rightarrow> assignment \<Rightarrow> variable \<Rightarrow> nat" where
  "unassigned_but c a var = card (set (variables c) - fst ` set a - {var})"

definition backtrack_measure ::
  "crossword \<times> domains \<times> assignment + crossword \<times> variable \<times> string list \<times> domains \<times> assignment
   \<Rightarrow> nat \<times> nat"
where
  "backtrack_measure x =
     (case x of
        Inl (c, d, a) \<Rightarrow> (2 * card (set (variables c) - fst ` set a), 0)
      | Inr (c, var, vals, d, a) \<Rightarrow> (2 * unassigned_but c a var + 1, length vals))"

lemma backtrack_total: "All backtrack_try_values_dom"
proof (relation "inv_image (less_than <*lex*> less_than) backtrack_measure")
  show "wf (inv_image (less_than <*lex*> less_than) backtrack_measure)"
    by (intro wf_inv_image wf_lex_prod wf_less_than)
next
  fix c :: crossword and d :: domains and a :: assignment and var and vals :: "string list"
  assume "select_unassigned_variable c d a = Inr var"
  from select_unassigned [OF this]
  have "var \<in> set (variables c) - fst ` set a" by simp
  then have "card (set (variables c) - fst ` set a - {var}) < card (set (variables c) - fst ` set a)"
    by (intro psubset_card_mono) auto
  then show "(Inr (c, var, vals, d, a), Inl (c, d, a)) \<in> inv_image (less_than <*lex*> less_than) backtrack_measure"
    by (simp add: unassigned_but_def backtrack_measure_def)
next
  fix c :: crossword and var and val :: string and rest and d :: domains and a :: assignment
  have "set (variables c) - fst ` set (AList.update var val a) = set (variables c) - fst ` set a - {var}"
    by (auto simp: keys_update)
  then show "(Inl (c, d, AList.update var val a), Inr (c, var, val # rest, d, a)) \<in> inv_image (less_than <*lex*> less_than) backtrack_measure"
    by (simp add: unassigned_but_def backtrack_measure_def)
next
  fix c :: crossword and var and val :: string and rest and d :: domains and a :: assignment and res :: "assignment option \<times> domains \<times> assignment" and result rest2 d2 a2 a3
  assume bt: "backtrack c d (AList.update var val a) = Inr res" "(result, rest2) = res" "(d2, a2) = rest2"
    and f: "\<not> truthy result" and del: "delitem a2 var = Inr a3"
    and dom: "backtrack_try_values_dom (Inl (c, d, AList.update var val a))"
  from bt have "backtrack c d (AList.update var val a) = Inr (result, d2, a2)" by auto
  with backtrack_restores_partial(1) [OF dom] f have "a2 = AList.update var val a" by blast
  with del have "a3 = AList.delete var (AList.update var val a)"
    by (simp add: delitem_update)
  then have "unassigned_but c a3 var = unassigned_but c a var"
    by (auto simp: unassigned_but_def keys_delete keys_update intro: arg_cong [where f = card])
  then show "(Inr (c, var, rest, d2, a3), Inr (c, var, val # rest, d, a)) \<in> inv_image (less_than <*lex*> less_than) backtrack_measure"
    by (simp add: backtrack_measure_def)
next
  fix c :: crossword and var and val :: string and rest and d :: domains and a a3 :: assignment
  assume "delitem (AList.update var val a) var = Inr a3"
  then have "a3 = AList.delete var (AList.update var val a)"
    by (simp add: delitem_update)
  then have "unassigned_but c a3 var = unassigned_but c a var"
    by (auto simp: unassigned_but_def keys_delete keys_update intro: arg_cong [where f = card])
  then show "(Inr (c, var, rest, d, a3), Inr (c, var, val # rest, d, a)) \<in> inv_image (less_than <*lex*> less_than) backtrack_measure"
    by (simp add: backtrack_measure_def)
qed

termination backtrack
  by (rule backtrack_total)

text \<open>
  The equation of \<open>backtrack\<close> holds for every argument, so the simplifier gets it only
  where a proof asks for it.
\<close>

declare backtrack.simps [simp del]

lemma backtrack_restores:
  assumes "backtrack c d a = Inr (r, d', a')"
  shows "d' = d" and "\<not> truthy r \<Longrightarrow> a' = a"
  using backtrack_restores_partial(1) [of c d a] backtrack_total assms by blast+

lemma try_values_restores:
  assumes "try_values c var vals d a = Inr (r, d', a')" and "var \<notin> fst ` set a"
  shows "d' = d" and "\<not> truthy r \<Longrightarrow> a' = a"
  using backtrack_restores_partial(2) [of c var vals d a] backtrack_total assms by blast+

section \<open>Node consistency and revision\<close>

lemma remove_word_present:
  "map_of d var = Some cur \<Longrightarrow> w \<in> set cur \<Longrightarrow>
   remove_word var w d = Inr (AList.update var (removeAll w cur) d)"
  by (simp add: remove_word_def getitem_def)

lemma removeAll_filter: "removeAll w xs = filter (\<lambda>v. v \<noteq> w) xs"
  by (induction xs) auto

lemma enforce_words_spec:
  "map_of d var = Some cur \<Longrightarrow> distinct us \<Longrightarrow>
   (\<forall>w \<in> set us. length w \<noteq> var_length var \<longrightarrow> w \<in> set cur) \<Longrightarrow>
   enforce_words var us d =
     Inr (AList.update var (filter (\<lambda>w. w \<notin> set us \<or> length w = var_length var) cur) d)"
proof (induction us arbitrary: d cur)
  case Nil
  then show ?case by (simp add: update_triv)
next
  case (Cons u us)
  show ?case
  proof (cases "length u = var_length var")
    case True
    have "filter (\<lambda>w. w \<notin> set us \<or> length w = var_length var) cur
        = filter (\<lambda>w. w \<notin> set (u # us) \<or> length w = var_length var) cur"
      using True by (intro filter_cong) auto
    with Cons.IH [of d cur] Cons.prems True show ?thesis by simp
  next
    case False
    with Cons.prems have mem: "u \<in> set cur" by simp
    let ?d1 = "AList.update var (removeAll u cur) d"
    have rw: "remove_word var u d = Inr ?d1"
      using Cons.prems(1) mem by (rule remove_word_present)
    have m1: "map_of ?d1 var = Some (removeAll u cur)"
      by (simp add: update_conv')
    have "\<forall>w \<in> set us. length w \<noteq> var_length var \<longrightarrow> w \<in> set (removeAll u cur)"
      using Cons.prems by auto
    from Cons.IH [OF m1 _ this] Cons.prems(2)
    have "enforce_words var us ?d1 =
      Inr (AList.update var (filter (\<lambda>w. w \<notin> set us \<or> length w = var_length var) (removeAll u cur)) d)"
      by simp
    moreover have "filter (\<lambda>w. w \<notin> set us \<or> length w = var_length var) (removeAll u cur)
        = filter (\<lambda>w. w \<notin> set (u # us) \<or> length w = var_length var) cur"
      using False by (auto simp: removeAll_filter intro: filter_cong)
    ultimately show ?thesis using False rw by simp
  qed
qed

lemma enforce_words_remdups:
  assumes "map_of d var = Some ws"
  shows "enforce_words var (remdups ws) d =
     Inr (AList.update var (filter (\<lambda>w. length w = var_length var) ws) d)"
proof -
  have "filter (\<lambda>w. w \<notin> set (remdups ws) \<or> length w = var_length var) ws
      = filter (\<lambda>w. length w = var_length var) ws"
    by (intro filter_cong) auto
  with enforce_words_spec [OF assms, of "remdups ws"] show ?thesis by simp
qed

lemma update_distinct_map:
  "distinct (map fst d) \<Longrightarrow> map_of d k = Some old \<Longrightarrow>
   AList.update k new d = map (\<lambda>(v, ws). (v, if v = k then new else ws)) d"
proof (induction d)
  case Nil
  then show ?case by simp
next
  case (Cons p d)
  obtain v ws where p: "p = (v, ws)" by (cases p)
  show ?case
  proof (cases "v = k")
    case True
    with Cons.prems p have "k \<notin> fst ` set d" by auto
    then have "map (\<lambda>(v, ws). (v, if v = k then new else ws)) d = d"
      by (intro map_idI) (auto simp: image_iff)
    with True p show ?thesis by simp
  next
    case False
    with Cons p show ?thesis by simp
  qed
qed

lemma enforce_vars_spec:
  "distinct (map fst d) \<Longrightarrow> distinct vs \<Longrightarrow> set vs \<subseteq> fst ` set d \<Longrightarrow>
   enforce_vars vs d = Inr (keep_fitting (set vs) d)"
proof (induction vs arbitrary: d)
  case Nil
  have "keep_fitting {} d = d"
    by (simp add: keep_fitting_def map_idI split_beta)
  then show ?case by simp
next
  case (Cons v vs)
  from Cons.prems obtain ws where ws: "map_of d v = Some ws"
    by (auto simp: image_iff weak_map_of_SomeI dest!: )
  let ?d1 = "AList.update v (filter (\<lambda>w. length w = var_length v) ws) d"
  have d1: "?d1 = map (\<lambda>(u, us). (u, if u = v then filter (\<lambda>w. length w = var_length v) ws else us)) d"
    using Cons.prems(1) ws by (rule update_distinct_map)
  have k1: "map fst ?d1 = map fst d"
    unfolding d1 by (simp add: split_beta)
  have "enforce_vars vs ?d1 = Inr (keep_fitting (set vs) ?d1)"
    using Cons.prems by (intro Cons.IH) (auto simp: k1 simp flip: set_map)
  moreover have "keep_fitting (set vs) ?d1 = keep_fitting (set (v # vs)) d"
  proof -
    have "\<And>u us. (u, us) \<in> set d \<Longrightarrow> u = v \<Longrightarrow> us = ws"
      using Cons.prems(1) ws by (metis map_of_is_SomeI option.inject)
    moreover have "v \<notin> set vs" using Cons.prems(2) by simp
    ultimately show ?thesis
      unfolding d1 keep_fitting_def by (auto simp: split_beta)
  qed
  ultimately show ?case
    using ws by (simp add: getitem_def enforce_words_remdups)
qed

lemma enforce_node_consistency_spec:
  assumes "distinct (map fst d)"
  shows "enforce_node_consistency d =
     Inr (map (\<lambda>(v, ws). (v, filter (\<lambda>w. length w = var_length v) ws)) d)"
proof -
  have "keep_fitting (set (map fst d)) d
      = map (\<lambda>(v, ws). (v, filter (\<lambda>w. length w = var_length v) ws)) d"
    unfolding keep_fitting_def by (intro map_cong) force+
  with enforce_vars_spec [OF assms, of "map fst d"] assms show ?thesis
    by (simp add: enforce_node_consistency_def)
qed

lemma all_differ_in_range:
  "i < length w \<Longrightarrow> \<forall>w' \<in> set dy. j < length w' \<Longrightarrow>
   all_differ w i j dy = Inr (\<not> supported i j dy w)"
  by (induction dy) (auto simp: supported_def char_at_def)

lemma revise_loop_exact:
  "x \<noteq> y \<Longrightarrow> map_of d x = Some cur \<Longrightarrow> map_of d y = Some dy \<Longrightarrow>
   distinct us \<Longrightarrow> set us \<subseteq> set cur \<Longrightarrow>
   \<forall>w \<in> set us. i < length w \<Longrightarrow> \<forall>w' \<in> set dy. j < length w' \<Longrightarrow>
   revise_loop i j x y us rv d =
     Inr (rv \<or> (\<exists>w \<in> set us. \<not> supported i j dy w),
          AList.update x (filter (\<lambda>w. w \<notin> set us \<or> supported i j dy w) cur) d)"
proof (induction us arbitrary: rv d cur)
  case Nil
  then show ?case by (simp add: update_triv)
next
  case (Cons u us)
  have ad: "all_differ u i j dy = Inr (\<not> supported i j dy u)"
    using Cons.prems by (intro all_differ_in_range) auto
  have gy: "getitem d y = Inr dy"
    using Cons.prems(3) by (simp add: getitem_def)
  show ?case
  proof (cases "supported i j dy u")
    case True
    have "filter (\<lambda>w. w \<notin> set us \<or> supported i j dy w) cur
        = filter (\<lambda>w. w \<notin> set (u # us) \<or> supported i j dy w) cur"
      using True by (intro filter_cong) auto
    moreover have "revise_loop i j x y us rv d =
      Inr (rv \<or> (\<exists>w \<in> set us. \<not> supported i j dy w),
           AList.update x (filter (\<lambda>w. w \<notin> set us \<or> supported i j dy w) cur) d)"
      using Cons.prems by (intro Cons.IH) auto
    ultimately show ?thesis using True ad gy by simp
  next
    case False
    let ?d1 = "AList.update x (removeAll u cur) d"
    have rw: "remove_word x u d = Inr ?d1"
      using Cons.prems by (intro remove_word_present) auto
    have "revise_loop i j x y us True ?d1 =
      Inr (True \<or> (\<exists>w \<in> set us. \<not> supported i j dy w),
           AList.update x (filter (\<lambda>w. w \<notin> set us \<or> supported i j dy w) (removeAll u cur)) ?d1)"
      using Cons.prems by (intro Cons.IH) (auto simp: update_conv')
    moreover have "filter (\<lambda>w. w \<notin> set us \<or> supported i j dy w) (removeAll u cur)
        = filter (\<lambda>w. w \<notin> set (u # us) \<or> supported i j dy w) cur"
      using False by (auto simp: removeAll_filter intro: filter_cong)
    ultimately show ?thesis using False ad gy rw by simp
  qed
qed

lemma revise_overlap:
  assumes "map_of (overlaps c) (x, y) = Some (i, j)" and "x \<noteq> y"
    and "map_of d x = Some dx" and "map_of d y = Some dy"
    and "\<forall>w \<in> set dx. i < length w" and "\<forall>w' \<in> set dy. j < length w'"
  shows "revise c d x y =
     Inr (\<exists>w \<in> set dx. \<not> supported i j dy w, AList.update x (filter (supported i j dy) dx) d)"
proof -
  have "filter (\<lambda>w. w \<notin> set (remdups dx) \<or> supported i j dy w) dx = filter (supported i j dy) dx"
    by (intro filter_cong) auto
  with revise_loop_exact [OF assms(2,3,4), of "remdups dx" i j False] assms
  show ?thesis by (simp add: revise_def getitem_def)
qed

lemma revise_no_overlap:
  "map_of (overlaps c) (x, y) = None \<Longrightarrow> revise c d x y = Inr (False, d)"
  by (simp add: revise_def)

section \<open>The keys of the store and the empty domain\<close>

lemma update_present_keys:
  "map_of d k = Some old \<Longrightarrow> map fst (AList.update k new d) = map fst d"
  by (induction d) (auto split: if_splits)

lemma remove_word_keys:
  "remove_word var w d = Inr d' \<Longrightarrow> map fst d' = map fst d"
  by (auto simp: remove_word_def getitem_def update_present_keys split: option.splits if_splits)

lemma enforce_words_keys:
  "enforce_words var ws d = Inr d' \<Longrightarrow> map fst d' = map fst d"
proof (induction ws arbitrary: d)
  case Nil
  then show ?case by simp
next
  case (Cons w ws)
  then show ?case
    by (fastforce split: if_splits sum.splits dest: remove_word_keys)
qed

lemma enforce_vars_keys:
  "enforce_vars vs d = Inr d' \<Longrightarrow> map fst d' = map fst d"
proof (induction vs arbitrary: d)
  case Nil
  then show ?case by simp
next
  case (Cons v vs)
  then show ?case
    by (fastforce split: sum.splits dest: enforce_words_keys)
qed

lemma enforce_node_consistency_keys:
  "enforce_node_consistency d = Inr d' \<Longrightarrow> map fst d' = map fst d"
  unfolding enforce_node_consistency_def by (rule enforce_vars_keys)

lemma revise_loop_keys:
  "revise_loop i j x y ws rv d = Inr (r, d') \<Longrightarrow> map fst d' = map fst d"
proof (induction ws arbitrary: rv d)
  case Nil
  then show ?case by simp
next
  case (Cons w ws)
  then show ?case
    by (fastforce split: sum.splits bool.splits if_splits dest: remove_word_keys)
qed

lemma revise_keys:
  "revise c d x y = Inr (r, d') \<Longrightarrow> map fst d' = map fst d"
  by (auto simp: revise_def split: option.splits sum.splits dest: revise_loop_keys)

lemma ac3_loop_keys:
  "ac3_loop c d queue = Inr (r, d') \<Longrightarrow> map fst d' = map fst d"
proof (induction c d queue rule: ac3_loop.induct)
  case (1 c d)
  then show ?case by simp
next
  case (2 c d x y queue)
  from "2.prems" obtain revised d1 where rv: "revise c d x y = Inr (revised, d1)"
    by (auto split: sum.splits)
  note k = revise_keys [OF rv]
  show ?case
  proof (cases revised)
    case False
    with "2.prems" rv have "ac3_loop c d1 queue = Inr (r, d')" by simp
    from "2.IH"(2) [OF rv refl False this] k show ?thesis by simp
  next
    case True
    with "2.prems" rv obtain dx where dx: "getitem d1 x = Inr dx"
      by (auto split: sum.splits)
    show ?thesis
    proof (cases "dx = []")
      case e: True
      with "2.prems" rv True dx k show ?thesis by simp
    next
      case ne: False
      with "2.prems" rv True dx
      have "ac3_loop c d1 (queue @ map (\<lambda>z. (z, x)) (removeAll y (neighbors c x))) = Inr (r, d')"
        by simp
      from "2.IH"(1) [OF rv refl True dx ne this] k show ?thesis by simp
    qed
  qed
qed

lemma ac3_loop_False_empty:
  "ac3_loop c d queue = Inr (False, d') \<Longrightarrow> \<exists>x. map_of d' x = Some []"
proof (induction c d queue rule: ac3_loop.induct)
  case (1 c d)
  then show ?case by simp
next
  case (2 c d x y queue)
  from "2.prems" obtain revised d1 where rv: "revise c d x y = Inr (revised, d1)"
    by (auto split: sum.splits)
  show ?case
  proof (cases revised)
    case False
    with "2.prems" rv have "ac3_loop c d1 queue = Inr (False, d')" by simp
    from "2.IH"(2) [OF rv refl False this] show ?thesis .
  next
    case True
    with "2.prems" rv obtain dx where dx: "getitem d1 x = Inr dx"
      by (auto split: sum.splits)
    show ?thesis
    proof (cases "dx = []")
      case e: True
      with "2.prems" rv True dx have "d' = d1" by simp
      with dx e show ?thesis
        by (auto simp: getitem_def split: option.splits)
    next
      case ne: False
      with "2.prems" rv True dx
      have "ac3_loop c d1 (queue @ map (\<lambda>z. (z, x)) (removeAll y (neighbors c x))) = Inr (False, d')"
        by simp
      from "2.IH"(1) [OF rv refl True dx ne this] show ?thesis .
    qed
  qed
qed

lemma min_loop_least:
  "map_of d best = Some wb \<Longrightarrow> fst bk = length wb \<Longrightarrow> \<forall>v \<in> set vs. map_of d v \<noteq> None \<Longrightarrow>
   \<exists>var wsv. min_loop c d vs best bk = Inr var \<and> map_of d var = Some wsv \<and>
     length wsv \<le> length wb \<and>
     (\<forall>v \<in> set vs. \<forall>ws. map_of d v = Some ws \<longrightarrow> length wsv \<le> length ws)"
proof (induction vs arbitrary: best bk wb)
  case Nil
  then show ?case by simp
next
  case (Cons v vs)
  from Cons.prems(3) obtain ws where ws: "map_of d v = Some ws" by auto
  let ?k = "(length ws, - int (length (neighbors c v)))"
  have sk: "select_key c d v = Inr ?k"
    using ws by (simp add: select_key_def getitem_def)
  have rest: "\<forall>v \<in> set vs. map_of d v \<noteq> None"
    using Cons.prems(3) by simp
  show ?case
  proof (cases "key_less ?k bk")
    case True
    then have le: "length ws \<le> length wb"
      using Cons.prems(2) by (auto simp: key_less_def)
    from Cons.IH [OF ws _ rest, where bk = ?k]
    obtain var wsv where r: "min_loop c d vs v ?k = Inr var" "map_of d var = Some wsv"
      "length wsv \<le> length ws"
      "\<forall>v \<in> set vs. \<forall>ws. map_of d v = Some ws \<longrightarrow> length wsv \<le> length ws"
      by auto
    have "min_loop c d (v # vs) best bk = Inr var"
      using True sk r(1) by simp
    moreover have "length wsv \<le> length wb" using r(3) le by simp
    moreover have "\<forall>u \<in> set (v # vs). \<forall>us. map_of d u = Some us \<longrightarrow> length wsv \<le> length us"
      using r(3,4) ws by auto
    ultimately show ?thesis using r(2) by blast
  next
    case False
    then have le: "length wb \<le> length ws"
      using Cons.prems(2) by (auto simp: key_less_def)
    from Cons.IH [OF Cons.prems(1,2) rest]
    obtain var wsv where r: "min_loop c d vs best bk = Inr var" "map_of d var = Some wsv"
      "length wsv \<le> length wb"
      "\<forall>v \<in> set vs. \<forall>ws. map_of d v = Some ws \<longrightarrow> length wsv \<le> length ws"
      by auto
    have "min_loop c d (v # vs) best bk = Inr var"
      using False sk r(1) by simp
    moreover have "\<forall>u \<in> set (v # vs). \<forall>us. map_of d u = Some us \<longrightarrow> length wsv \<le> length us"
      using r(3,4) ws le by auto
    ultimately show ?thesis using r(2,3) by blast
  qed
qed

lemma select_least:
  assumes "set (variables c) \<subseteq> fst ` set d" and "unassigned c a \<noteq> []"
  shows "\<exists>var ws. select_unassigned_variable c d a = Inr var \<and> map_of d var = Some ws \<and>
     (\<forall>v \<in> set (unassigned c a). \<forall>ws'. map_of d v = Some ws' \<longrightarrow> length ws \<le> length ws')"
proof -
  from assms(2) obtain v rest where u: "unassigned c a = v # rest"
    by (cases "unassigned c a") auto
  have keys: "\<forall>v \<in> set (unassigned c a). map_of d v \<noteq> None"
    using assms(1) by (auto simp: unassigned_def map_of_eq_None_iff)
  with u obtain ws where ws: "map_of d v = Some ws" by auto
  let ?k = "(length ws, - int (length (neighbors c v)))"
  have sk: "select_key c d v = Inr ?k"
    using ws by (simp add: select_key_def getitem_def)
  from keys u have rest: "\<forall>v \<in> set rest. map_of d v \<noteq> None" by simp
  from min_loop_least [OF ws _ rest, where bk = ?k and c = c]
  obtain var wsv where m: "min_loop c d rest v ?k = Inr var" and wsv: "map_of d var = Some wsv"
    and le: "length wsv \<le> length ws"
      "\<forall>v \<in> set rest. \<forall>ws. map_of d v = Some ws \<longrightarrow> length wsv \<le> length ws"
    by auto
  have "select_unassigned_variable c d a = Inr var"
    using u sk m by (simp add: select_unassigned_variable_def)
  moreover have "\<forall>v \<in> set (unassigned c a). \<forall>ws'. map_of d v = Some ws' \<longrightarrow> length wsv \<le> length ws'"
    using le u ws by auto
  ultimately show ?thesis using wsv by blast
qed

lemma backtrack_empty_domain:
  assumes keys: "set (variables c) \<subseteq> fst ` set d"
    and x: "x \<in> set (variables c)" "map_of d x = Some []"
  shows "backtrack c d [] = Inr (None, d, [])"
proof -
  have u: "unassigned c [] = variables c" by (simp add: unassigned_def)
  with x have ne: "unassigned c [] \<noteq> []" by auto
  from select_least [OF keys ne] u x
  obtain var ws where s: "select_unassigned_variable c d [] = Inr var"
    and ws: "map_of d var = Some ws" "length ws \<le> length ([] :: string list)"
    by fastforce
  then have o: "order_domain_values c d var [] = Inr []"
    by (simp add: order_domain_values_def getitem_def)
  have "\<not> assignment_complete c []"
    using x by (auto simp: assignment_complete_def)
  with s o show ?thesis by (simp add: backtrack.simps)
qed

lemma backtrack_after_failed_ac3:
  assumes n: "enforce_node_consistency (init_domains c) = Inr d1"
    and a: "ac3 c d1 None = Inr (False, d2)"
  shows "backtrack c d2 [] = Inr (None, d2, [])"
proof -
  from a have l: "ac3_loop c d1 (default_arcs c d1) = Inr (False, d2)"
    by (simp add: ac3_def)
  have k: "map fst d2 = variables c"
    using ac3_loop_keys [OF l] enforce_node_consistency_keys [OF n]
    by (simp add: init_domains_def comp_def)
  from ac3_loop_False_empty [OF l] obtain x where x: "map_of d2 x = Some []" ..
  then have "x \<in> fst ` set d2" by (metis domI dom_map_of_conv_image_fst)
  with k have xv: "x \<in> set (variables c)" by (metis set_map)
  have "set (variables c) \<subseteq> fst ` set d2" using k by (metis set_map subset_refl)
  from backtrack_empty_domain [OF this xv x] show ?thesis .
qed

lemma solve_traced_failed_ac3:
  assumes n: "enforce_node_consistency (init_domains c) = Inr d1"
    and a: "ac3 c d1 None = Inr (False, d2)"
  shows "solve_traced c = ([Call_enforce_node_consistency, Call_ac3, Call_backtrack], Inr None)"
  using backtrack_after_failed_ac3 [OF n a] n a by (simp add: solve_traced_def)

section \<open>What a returned assignment satisfies\<close>

lemma lengths_match_iff:
  "lengths_match a \<longleftrightarrow> (\<forall>(v, w) \<in> set a. length w = var_length v)"
  by (induction a rule: lengths_match.induct) auto

lemma check_neighbors_True:
  "check_neighbors c a var ns = Inr True \<Longrightarrow> n \<in> set ns \<Longrightarrow> n \<in> fst ` set a \<Longrightarrow>
   \<exists>i j wv wn. map_of (overlaps c) (var, n) = Some (i, j) \<and> map_of a var = Some wv \<and>
     map_of a n = Some wn \<and> i < length wv \<and> j < length wn \<and> wv ! i = wn ! j"
proof (induction ns)
  case Nil
  then show ?case by simp
next
  case (Cons m ns)
  show ?case
  proof (cases "m \<in> fst ` set a")
    case False
    with Cons show ?thesis by auto
  next
    case True
    with Cons.prems(1) obtain i j wv wn where
      o: "map_of (overlaps c) (var, m) = Some (i, j)" and wv: "map_of a var = Some wv"
      and wn: "map_of a m = Some wn" and r: "i < length wv" "j < length wn" "wv ! i = wn ! j"
      and rest: "check_neighbors c a var ns = Inr True"
      by (auto simp: getitem_def char_at_def split: option.splits if_splits)
    show ?thesis
    proof (cases "n = m")
      case True
      with o wv wn r show ?thesis by blast
    next
      case False
      with Cons.prems have "n \<in> set ns" by simp
      from Cons.IH [OF rest this Cons.prems(3)] show ?thesis .
    qed
  qed
qed

lemma check_overlaps_True:
  "check_overlaps c a vs = Inr True \<Longrightarrow> v \<in> set vs \<Longrightarrow>
   check_neighbors c a v (neighbors c v) = Inr True"
  by (induction vs) (auto split: sum.splits if_splits)

lemma consistent_True:
  assumes "consistent c a = Inr True"
  shows "distinct (map snd a)"
    and "\<forall>(v, w) \<in> set a. length w = var_length v"
    and "\<And>x y i j. x \<in> fst ` set a \<Longrightarrow> y \<in> fst ` set a \<Longrightarrow> y \<in> set (variables c) \<Longrightarrow> x \<noteq> y \<Longrightarrow>
       map_of (overlaps c) (x, y) = Some (i, j) \<Longrightarrow>
       \<exists>wx wy. map_of a x = Some wx \<and> map_of a y = Some wy \<and>
          i < length wx \<and> j < length wy \<and> wx ! i = wy ! j"
proof -
  from assms have l: "length (remdups (map snd a)) = length a" and lm: "lengths_match a"
    and co: "check_overlaps c a (map fst a) = Inr True"
    by (auto simp: consistent_def split: if_splits)
  from l have "length (remdups (map snd a)) = length (map snd a)" by simp
  then show "distinct (map snd a)"
    by (metis distinct_remdups length_remdups_eq)
  from lm show "\<forall>(v, w) \<in> set a. length w = var_length v"
    by (simp add: lengths_match_iff)
  fix x y i j
  assume x: "x \<in> fst ` set a" and y: "y \<in> fst ` set a" and yv: "y \<in> set (variables c)"
    and ne: "x \<noteq> y" and o: "map_of (overlaps c) (x, y) = Some (i, j)"
  from x have "x \<in> set (map fst a)" by simp
  from check_overlaps_True [OF co this]
  have cn: "check_neighbors c a x (neighbors c x) = Inr True" .
  have "y \<in> set (neighbors c x)"
    using yv ne o by (simp add: neighbors_def)
  from check_neighbors_True [OF cn this y] o
  show "\<exists>wx wy. map_of a x = Some wx \<and> map_of a y = Some wy \<and>
          i < length wx \<and> j < length wy \<and> wx ! i = wy ! j"
    by auto
qed

lemma consistent_empty: "consistent c [] = Inr True"
  by (simp add: consistent_def)

lemma backtrack_result:
  "\<forall>r d' a'. backtrack c d a = Inr (Some r, d', a') \<longrightarrow>
     assignment_complete c r \<and> (distinct (map fst a) \<longrightarrow> distinct (map fst r)) \<and>
     (consistent c a = Inr True \<longrightarrow> consistent c r = Inr True)"
  "\<forall>r d' a'. try_values c var vals d a = Inr (Some r, d', a') \<longrightarrow>
     assignment_complete c r \<and> (distinct (map fst a) \<longrightarrow> distinct (map fst r)) \<and>
     consistent c r = Inr True"
proof (induction c d a and c var vals d a rule: backtrack_try_values.induct)
  case (1 c d a)
  show ?case
  proof (intro allI impI)
    fix r d' a'
    assume res: "backtrack c d a = Inr (Some r, d', a')"
    show "assignment_complete c r \<and> (distinct (map fst a) \<longrightarrow> distinct (map fst r)) \<and>
          (consistent c a = Inr True \<longrightarrow> consistent c r = Inr True)"
    proof (cases "assignment_complete c a")
      case True
      with res show ?thesis by (simp add: backtrack.simps)
    next
      case False
      with res obtain var vals where
        sel: "select_unassigned_variable c d a = Inr var"
        and ord: "order_domain_values c d var a = Inr vals"
        and tv: "try_values c var vals d a = Inr (Some r, d', a')"
        by (auto simp: backtrack.simps split: sum.splits)
      from "1.IH" [OF False sel ord] tv show ?thesis by blast
    qed
  qed
next
  case (2 c var d a)
  then show ?case by simp
next
  case (3 c var val rest d a)
  show ?case
  proof (intro allI impI)
    fix r d' a'
    assume res: "try_values c var (val # rest) d a = Inr (Some r, d', a')"
    let ?a1 = "AList.update var val a"
    let ?goal = "assignment_complete c r \<and> (distinct (map fst a) \<longrightarrow> distinct (map fst r)) \<and>
          consistent c r = Inr True"
    have dist: "distinct (map fst a) \<Longrightarrow> distinct (map fst ?a1)"
      by (rule distinct_update)
    have del: "distinct (map fst b) \<Longrightarrow> delitem b var = Inr b' \<Longrightarrow> distinct (map fst b')" for b b'
      by (auto simp: delitem_def distinct_delete split: if_splits)
    from res obtain ok where ok: "consistent c ?a1 = Inr ok"
      by (auto split: sum.splits)
    show ?goal
    proof (cases ok)
      case False
      with res ok obtain a3 where d3: "delitem ?a1 var = Inr a3"
        and tv: "try_values c var rest d a3 = Inr (Some r, d', a')"
        by (auto split: sum.splits)
      from "3.IH"(3) [OF ok False d3] tv
      have "assignment_complete c r \<and> (distinct (map fst a3) \<longrightarrow> distinct (map fst r)) \<and>
          consistent c r = Inr True" by blast
      with dist del [OF _ d3] show ?thesis by blast
    next
      case True
      with res ok obtain result d2 a2 where
        bt: "backtrack c d ?a1 = Inr (result, d2, a2)"
        by (auto split: sum.splits)
      show ?thesis
      proof (cases "truthy result")
        case t: True
        with res ok True bt have "backtrack c d ?a1 = Inr (Some r, d2, a2)" by simp
        with "3.IH"(1) [OF ok True]
        have "assignment_complete c r \<and> (distinct (map fst ?a1) \<longrightarrow> distinct (map fst r)) \<and>
          (consistent c ?a1 = Inr True \<longrightarrow> consistent c r = Inr True)" by blast
        with ok True dist show ?thesis by simp
      next
        case f: False
        with res ok True bt obtain a3 where d3: "delitem a2 var = Inr a3"
          and tv: "try_values c var rest d2 a3 = Inr (Some r, d', a')"
          by (auto split: sum.splits)
        from backtrack_restores(2) [OF bt f] have a2: "a2 = ?a1" .
        from "3.IH"(2) [OF ok True bt refl refl f d3] tv
        have "assignment_complete c r \<and> (distinct (map fst a3) \<longrightarrow> distinct (map fst r)) \<and>
          consistent c r = Inr True" by blast
        with dist del [OF _ d3] a2 show ?thesis by blast
      qed
    qed
  qed
qed

lemma solve_Some:
  assumes "solve c = Inr (Some a)"
  shows "assignment_complete c a \<and> distinct (map fst a) \<and> consistent c a = Inr True"
proof -
  from assms obtain d2 d3 a3 where "backtrack c d2 [] = Inr (Some a, d3, a3)"
    by (auto simp: solve_def solve_traced_def split: sum.splits prod.splits)
  with backtrack_result(1) [of c d2 "[]"] consistent_empty [of c] show ?thesis
    by auto
qed

section \<open>Counting conflicts\<close>

lemma count_values_eq:
  "count_values val i j dn k = Inr k' \<Longrightarrow>
   k' = k + length (filter (\<lambda>w. val ! i \<noteq> w ! j) dn)"
proof (induction dn arbitrary: k)
  case Nil
  then show ?case by simp
next
  case (Cons w dn)
  from Cons.prems have r: "i < length val" "j < length w"
    and rec: "count_values val i j dn (if val ! i \<noteq> w ! j then k + 1 else k) = Inr k'"
    by (auto simp: char_at_def split: if_splits)
  from Cons.IH [OF rec] show ?case by simp
qed

lemma finite_differing: "finite (differing c d var val n)"
proof (cases "map_of d n")
  case None
  then have "differing c d var val n = {}" by (simp add: differing_def)
  then show ?thesis by simp
next
  case (Some dn)
  then have "differing c d var val n \<subseteq> set dn" by (auto simp: differing_def)
  then show ?thesis by (rule finite_subset) simp
qed

lemma card_differing:
  assumes "map_of (overlaps c) (var, n) = Some (i, j)" and "map_of d n = Some dn"
    and "distinct dn"
  shows "card (differing c d var val n) = length (filter (\<lambda>w. val ! i \<noteq> w ! j) dn)"
proof -
  have "differing c d var val n = set (filter (\<lambda>w. val ! i \<noteq> w ! j) dn)"
    using assms(1,2) by (auto simp: differing_def)
  then show ?thesis
    using assms(3) distinct_card [of "filter (\<lambda>w. val ! i \<noteq> w ! j) dn"] by simp
qed

lemma count_neighbors_eq:
  "count_neighbors c d a var val ns k = Inr k' \<Longrightarrow> distinct ns \<Longrightarrow>
   \<forall>(v, ws) \<in> set d. distinct ws \<Longrightarrow>
   k' = k + (\<Sum>n \<in> {n \<in> set ns. n \<notin> fst ` set a}. card (differing c d var val n))"
proof (induction ns arbitrary: k)
  case Nil
  then show ?case by simp
next
  case (Cons n ns)
  show ?case
  proof (cases "n \<in> fst ` set a")
    case True
    then have "{m \<in> set (n # ns). m \<notin> fst ` set a} = {m \<in> set ns. m \<notin> fst ` set a}"
      by auto
    moreover from True Cons.prems have "count_neighbors c d a var val ns k = Inr k'" by simp
    ultimately show ?thesis using Cons.IH [of k] Cons.prems by simp
  next
    case False
    with Cons.prems(1) obtain i j dn k1 where
      o: "map_of (overlaps c) (var, n) = Some (i, j)" and dn: "map_of d n = Some dn"
      and cv: "count_values val i j dn k = Inr k1"
      and rec: "count_neighbors c d a var val ns k1 = Inr k'"
      by (auto simp: getitem_def split: option.splits sum.splits)
    from dn Cons.prems(3) have "distinct dn"
      by (auto dest: map_of_SomeD)
    from card_differing [OF o dn this] count_values_eq [OF cv]
    have k1: "k1 = k + card (differing c d var val n)" by simp
    have split: "{m \<in> set (n # ns). m \<notin> fst ` set a} = insert n {m \<in> set ns. m \<notin> fst ` set a}"
      using False by auto
    have "n \<notin> {m \<in> set ns. m \<notin> fst ` set a}" using Cons.prems(2) by simp
    then have "(\<Sum>m \<in> {m \<in> set (n # ns). m \<notin> fst ` set a}. card (differing c d var val m))
       = card (differing c d var val n) + (\<Sum>m \<in> {m \<in> set ns. m \<notin> fst ` set a}. card (differing c d var val m))"
      unfolding split by (subst sum.insert) simp_all
    with Cons.IH [OF rec] Cons.prems k1 show ?thesis by simp
  qed
qed

lemma conflict_pairs_Sigma:
  "conflict_pairs c d a var val =
     (SIGMA n : {n \<in> set (neighbors c var). n \<notin> fst ` set a}. differing c d var val n)"
  by (auto simp: conflict_pairs_def)

lemma count_conflicts_eq:
  assumes "count_conflicts c d a var val = Inr k" and "distinct (variables c)"
    and "\<forall>(v, ws) \<in> set d. distinct ws"
  shows "k = card (conflict_pairs c d a var val)"
proof -
  have dn: "distinct (neighbors c var)"
    using assms(2) by (simp add: neighbors_def)
  from assms(1) have "count_neighbors c d a var val (neighbors c var) 0 = Inr k"
    by (simp add: count_conflicts_def)
  from count_neighbors_eq [OF this dn assms(3)]
  have "k = (\<Sum>n \<in> {n \<in> set (neighbors c var). n \<notin> fst ` set a}. card (differing c d var val n))"
    by simp
  also have "\<dots> = card (conflict_pairs c d a var val)"
    unfolding conflict_pairs_Sigma by (subst card_SigmaI) (simp_all add: finite_differing)
  finally show ?thesis .
qed

lemma map_result_Inr:
  "map_result f xs = Inr ys \<Longrightarrow> list_all2 (\<lambda>x y. f x = Inr y) xs ys"
  by (induction xs arbitrary: ys) (auto split: sum.splits)

lemma order_domain_values_spec:
  assumes "order_domain_values c d var a = Inr vals" and "distinct (variables c)"
    and "\<forall>(v, ws) \<in> set d. distinct ws"
  shows "\<exists>dv. map_of d var = Some dv \<and> mset vals = mset dv \<and>
     sorted (map (\<lambda>w. card (conflict_pairs c d a var w)) vals)"
proof -
  from assms(1) obtain dv keys where dv: "map_of d var = Some dv"
    and keys: "map_result (count_conflicts c d a var) dv = Inr keys"
    and vals: "vals = map snd (sort_key fst (zip keys dv))"
    by (auto simp: order_domain_values_def getitem_def split: option.splits sum.splits)
  from map_result_Inr [OF keys]
  have l2: "list_all2 (\<lambda>w k. count_conflicts c d a var w = Inr k) dv keys" .
  then have len: "length keys = length dv" by (simp add: list_all2_lengthD)
  have key: "k = card (conflict_pairs c d a var w)" if "(k, w) \<in> set (zip keys dv)" for k w
  proof -
    from that obtain n where "n < length dv" "keys ! n = k" "dv ! n = w"
      using len by (auto simp: set_zip)
    with l2 have "count_conflicts c d a var w = Inr k"
      by (auto simp: list_all2_conv_all_nth)
    from count_conflicts_eq [OF this assms(2,3)] show ?thesis .
  qed
  have "mset vals = mset (map snd (zip keys dv))"
    unfolding vals by simp
  then have m: "mset vals = mset dv" using len by simp
  have "map (\<lambda>w. card (conflict_pairs c d a var w)) vals = map fst (sort_key fst (zip keys dv))"
    unfolding vals using key by (auto simp: comp_def intro!: map_cong)
  then have "sorted (map (\<lambda>w. card (conflict_pairs c d a var w)) vals)"
    by simp
  with dv m show ?thesis by blast
qed

section \<open>The invariant of the worklist loop\<close>

lemma wf_crosswordD:
  assumes "wf_crossword c" and "map_of (overlaps c) (x, y) = Some (i, j)"
  shows "x \<in> set (variables c)" and "y \<in> set (variables c)" and "x \<noteq> y"
    and "i < var_length x" and "j < var_length y"
    and "map_of (overlaps c) (y, x) = Some (j, i)"
proof -
  from assms(2) have "((x, y), (i, j)) \<in> set (overlaps c)" by (rule map_of_SomeD)
  with assms(1) have "x \<in> set (variables c) \<and> y \<in> set (variables c) \<and> x \<noteq> y \<and>
        i < var_length x \<and> j < var_length y \<and> map_of (overlaps c) (y, x) = Some (j, i)"
    unfolding wf_crossword_def by fast
  then show "x \<in> set (variables c)" and "y \<in> set (variables c)" and "x \<noteq> y"
    and "i < var_length x" and "j < var_length y"
    and "map_of (overlaps c) (y, x) = Some (j, i)"
    by simp_all
qed

lemma store_lookup:
  assumes "map fst d = variables c" and "node_consistent d" and "x \<in> set (variables c)"
  shows "\<exists>dx. map_of d x = Some dx \<and> (\<forall>w \<in> set dx. length w = var_length x)"
proof -
  from assms(1,3) have "x \<in> fst ` set d" by (metis set_map)
  then obtain dx where dx: "map_of d x = Some dx"
    by (metis domD dom_map_of_conv_image_fst)
  then have "(x, dx) \<in> set d" by (rule map_of_SomeD)
  with assms(2) have "\<forall>w \<in> set dx. length w = var_length x"
    unfolding node_consistent_def by fast
  with dx show ?thesis by blast
qed

lemma set_update_subset:
  "(v, ws) \<in> set (AList.update k new d) \<Longrightarrow> (v, ws) \<in> set d \<or> (v = k \<and> ws = new)"
  by (induction d) (auto split: if_splits)

lemma node_consistent_update:
  assumes "node_consistent d" and "map_of d x = Some dx"
  shows "node_consistent (AList.update x (filter P dx) d)"
proof -
  from assms(2) have "(x, dx) \<in> set d" by (rule map_of_SomeD)
  with assms(1) have dx: "\<forall>w \<in> set dx. length w = var_length x"
    unfolding node_consistent_def by fast
  show ?thesis
    unfolding node_consistent_def
  proof (intro ballI, clarify)
    fix v ws w
    assume "(v, ws) \<in> set (AList.update x (filter P dx) d)" and w: "w \<in> set ws"
    from set_update_subset [OF this(1)]
    show "length w = var_length v"
    proof
      assume "(v, ws) \<in> set d"
      with assms(1) w show ?thesis unfolding node_consistent_def by fast
    next
      assume "v = x \<and> ws = filter P dx"
      with dx w show ?thesis by simp
    qed
  qed
qed

lemma revise_wf:
  assumes wf: "wf_crossword c" and keys: "map fst d = variables c" and nc: "node_consistent d"
    and o: "map_of (overlaps c) (x, y) = Some (i, j)"
  shows "\<exists>dx dy. map_of d x = Some dx \<and> map_of d y = Some dy \<and>
     revise c d x y =
       Inr (\<exists>w \<in> set dx. \<not> supported i j dy w, AList.update x (filter (supported i j dy) dx) d)"
proof -
  note w = wf_crosswordD [OF wf o]
  from store_lookup [OF keys nc w(1)] obtain dx where
    dx: "map_of d x = Some dx" "\<forall>w \<in> set dx. length w = var_length x" by blast
  from store_lookup [OF keys nc w(2)] obtain dy where
    dy: "map_of d y = Some dy" "\<forall>w \<in> set dy. length w = var_length y" by blast
  have "\<forall>w \<in> set dx. i < length w" using dx(2) w(4) by simp
  moreover have "\<forall>w' \<in> set dy. j < length w'" using dy(2) w(5) by simp
  ultimately have "revise c d x y =
       Inr (\<exists>w \<in> set dx. \<not> supported i j dy w, AList.update x (filter (supported i j dy) dx) d)"
    using o w(3) dx(1) dy(1) by (intro revise_overlap)
  with dx(1) dy(1) show ?thesis by blast
qed

lemma supportedI: "w' \<in> set dy \<Longrightarrow> w ! i = w' ! j \<Longrightarrow> supported i j dy w"
  unfolding supported_def by blast

lemma arcs_inv_revised:
  assumes wf: "wf_crossword c"
    and o: "map_of (overlaps c) (x, y) = Some (i, j)"
    and dx: "map_of d x = Some dx" and dy: "map_of d y = Some dy"
    and inv: "arcs_inv c d ((x, y) # queue)"
  shows "arcs_inv c (AList.update x (filter (supported i j dy) dx) d)
           (queue @ map (\<lambda>z. (z, x)) (removeAll y (neighbors c x)))"
    (is "arcs_inv c ?d1 ?q1")
  unfolding arcs_inv_def
proof (intro allI impI)
  fix a b i' j'
  assume ab: "map_of (overlaps c) (a, b) = Some (i', j')"
  note wxy = wf_crosswordD [OF wf o]
  note wab = wf_crosswordD [OF wf ab]
  have m1: "map_of ?d1 = (map_of d)(x \<mapsto> filter (supported i j dy) dx)"
    by (rule update_conv')
  show "(a, b) \<in> set ?q1 \<or> arc_ok ?d1 a b i' j'"
  proof (cases "(a, b) = (x, y)")
    case True
    with ab o have "i' = i" "j' = j" by simp_all
    moreover have "arc_ok ?d1 x y i j"
      unfolding arc_ok_def using wxy(3) dy by (simp add: m1)
    ultimately show ?thesis using True by simp
  next
    case False
    from inv ab have "(a, b) \<in> set ((x, y) # queue) \<or> arc_ok d a b i' j'"
      unfolding arcs_inv_def by blast
    with False have "(a, b) \<in> set queue \<or> arc_ok d a b i' j'" by auto
    then show ?thesis
    proof
      assume "(a, b) \<in> set queue"
      then show ?thesis by simp
    next
      assume ok: "arc_ok d a b i' j'"
      then obtain da db where da: "map_of d a = Some da" and db: "map_of d b = Some db"
        and sup: "\<forall>w \<in> set da. supported i' j' db w"
        unfolding arc_ok_def by blast
      show ?thesis
      proof (cases "b = x")
        case bx: False
        have "arc_ok ?d1 a b i' j'"
        proof (cases "a = x")
          case True
          with da dx have "da = dx" by simp
          with True bx db sup show ?thesis
            unfolding arc_ok_def by (simp add: m1)
        next
          case False
          with bx da db sup show ?thesis
            unfolding arc_ok_def by (simp add: m1)
        qed
        then show ?thesis ..
      next
        case bx: True
        with wab(3) have ax: "a \<noteq> x" by simp
        show ?thesis
        proof (cases "a = y")
          case False
          from wab(6) bx have "map_of (overlaps c) (x, a) \<noteq> None" by simp
          with wab(1) ax have "a \<in> set (neighbors c x)"
            by (simp add: neighbors_def)
          with False bx have "(a, b) \<in> set ?q1" by simp
          then show ?thesis ..
        next
          case True
          from wab(6) True bx o have ij: "i' = j" "j' = i" by simp_all
          from True da dy have day: "da = dy" by simp
          from bx db dx have dbx: "db = dx" by simp
          have "\<forall>w' \<in> set dy. supported j i (filter (supported i j dy) dx) w'"
          proof
            fix w'
            assume w': "w' \<in> set dy"
            with sup day dbx ij obtain w where w: "w \<in> set dx" "w' ! j = w ! i"
              unfolding supported_def by auto
            have sw: "supported i j dy w"
              using w' w(2) by (intro supportedI [of w']) simp_all
            show "supported j i (filter (supported i j dy) dx) w'"
              using w sw by (intro supportedI [of w]) simp_all
          qed
          then have "arc_ok ?d1 y x j i"
            unfolding arc_ok_def using ax True dy by (simp add: m1)
          with True bx ij show ?thesis by simp
        qed
      qed
    qed
  qed
qed

lemma filter_all: "\<forall>w \<in> set xs. P w \<Longrightarrow> filter P xs = xs"
  by (induction xs) auto

lemma ac3_loop_fixpoint:
  "wf_crossword c \<Longrightarrow> map fst d = variables c \<Longrightarrow> node_consistent d \<Longrightarrow>
   arcs_inv c d queue \<Longrightarrow> ac3_loop c d queue = Inr (True, d') \<Longrightarrow>
   map fst d' = variables c \<and> node_consistent d' \<and> arcs_inv c d' []"
proof (induction c d queue rule: ac3_loop.induct)
  case (1 c d)
  then show ?case by simp
next
  case (2 c d x y queue)
  note wf = "2.prems"(1) and keys = "2.prems"(2) and nc = "2.prems"(3)
    and inv = "2.prems"(4) and res = "2.prems"(5)
  show ?case
  proof (cases "map_of (overlaps c) (x, y)")
    case None
    then have rv: "revise c d x y = Inr (False, d)" by (rule revise_no_overlap)
    with res have rec: "ac3_loop c d queue = Inr (True, d')" by simp
    have "arcs_inv c d queue"
      using inv None unfolding arcs_inv_def by fastforce
    from "2.IH"(2) [OF rv refl _ wf keys nc this rec] show ?thesis by simp
  next
    case (Some ij)
    obtain i j where ij: "ij = (i, j)" by (cases ij)
    with Some have o: "map_of (overlaps c) (x, y) = Some (i, j)" by simp
    from revise_wf [OF wf keys nc o] obtain dx dy where
      dx: "map_of d x = Some dx" and dy: "map_of d y = Some dy"
      and rv: "revise c d x y =
        Inr (\<exists>w \<in> set dx. \<not> supported i j dy w, AList.update x (filter (supported i j dy) dx) d)"
      by blast
    let ?d1 = "AList.update x (filter (supported i j dy) dx) d"
    have keys1: "map fst ?d1 = variables c"
      using update_present_keys [OF dx] keys by simp
    have nc1: "node_consistent ?d1"
      using nc dx by (rule node_consistent_update)
    show ?thesis
    proof (cases "\<exists>w \<in> set dx. \<not> supported i j dy w")
      case False
      then have all: "\<forall>w \<in> set dx. supported i j dy w" by simp
      then have "filter (supported i j dy) dx = dx" by (rule filter_all)
      then have d1: "?d1 = d" using dx by (simp add: update_triv)
      from rv False d1 have rv': "revise c d x y = Inr (False, d)" by simp
      with res have rec: "ac3_loop c d queue = Inr (True, d')" by simp
      have "arc_ok d x y i j"
        unfolding arc_ok_def using dx dy all by simp
      with inv o have "arcs_inv c d queue"
        unfolding arcs_inv_def by (metis option.inject prod.inject set_ConsD)
      from "2.IH"(2) [OF rv' refl _ wf keys nc this rec] show ?thesis by simp
    next
      case True
      with rv have rv': "revise c d x y = Inr (True, ?d1)" by simp
      have g: "getitem ?d1 x = Inr (filter (supported i j dy) dx)"
        by (simp add: getitem_def update_conv')
      from res rv' g have ne: "filter (supported i j dy) dx \<noteq> []"
        by (auto split: if_splits)
      with res rv' g have rec:
        "ac3_loop c ?d1 (queue @ map (\<lambda>z. (z, x)) (removeAll y (neighbors c x))) = Inr (True, d')"
        by simp
      have "arcs_inv c ?d1 (queue @ map (\<lambda>z. (z, x)) (removeAll y (neighbors c x)))"
        using wf o dx dy inv by (rule arcs_inv_revised)
      from "2.IH"(1) [OF rv' refl _ g ne wf keys1 nc1 this rec] show ?thesis by simp
    qed
  qed
qed

lemma default_arcs_inv:
  assumes "wf_crossword c" and "map fst d = variables c"
  shows "arcs_inv c d (default_arcs c d)"
  unfolding arcs_inv_def
proof (intro allI impI)
  fix x y i j
  assume o: "map_of (overlaps c) (x, y) = Some (i, j)"
  note w = wf_crosswordD [OF assms(1) o]
  from w(2,3) o have "y \<in> set (neighbors c x)" by (auto simp: neighbors_def)
  with w(1) assms(2) have "(x, y) \<in> set (default_arcs c d)"
    by (auto simp: default_arcs_def)
  then show "(x, y) \<in> set (default_arcs c d) \<or> arc_ok d x y i j" ..
qed

lemma ac3_fixpoint:
  assumes wf: "wf_crossword c" and keys: "map fst d = variables c" and nc: "node_consistent d"
    and res: "ac3 c d None = Inr (True, d')"
    and o: "map_of (overlaps c) (x, y) = Some (i, j)"
  shows "arc_ok d' x y i j" and "revise c d' x y = Inr (False, d')"
proof -
  from res have l: "ac3_loop c d (default_arcs c d) = Inr (True, d')"
    by (simp add: ac3_def)
  from ac3_loop_fixpoint [OF wf keys nc default_arcs_inv [OF wf keys] l]
  have keys': "map fst d' = variables c" and nc': "node_consistent d'"
    and inv: "arcs_inv c d' []" by simp_all
  from inv o show ok: "arc_ok d' x y i j"
    unfolding arcs_inv_def by fastforce
  from revise_wf [OF wf keys' nc' o] obtain dx dy where
    dx: "map_of d' x = Some dx" and dy: "map_of d' y = Some dy"
    and rv: "revise c d' x y =
      Inr (\<exists>w \<in> set dx. \<not> supported i j dy w, AList.update x (filter (supported i j dy) dx) d')"
    by blast
  from ok dx dy have all: "\<forall>w \<in> set dx. supported i j dy w"
    unfolding arc_ok_def by simp
  then have "filter (supported i j dy) dx = dx" by (rule filter_all)
  then have "AList.update x (filter (supported i j dy) dx) d' = d'"
    using dx by (simp add: update_triv)
  with rv all show "revise c d' x y = Inr (False, d')" by simp
qed

section \<open>Well-formed puzzles raise nothing\<close>

lemma node_consistent_words:
  "node_consistent d \<Longrightarrow> map_of d v = Some ws \<Longrightarrow> w \<in> set ws \<Longrightarrow> length w = var_length v"
  unfolding node_consistent_def by (fastforce dest: map_of_SomeD)

lemma neighborsD:
  assumes "n \<in> set (neighbors c var)"
  shows "n \<in> set (variables c)" and "\<exists>i j. map_of (overlaps c) (var, n) = Some (i, j)"
  using assms by (auto simp: neighbors_def)

lemma count_values_returns:
  "(dn \<noteq> [] \<Longrightarrow> i < length val) \<Longrightarrow> \<forall>w \<in> set dn. j < length w \<Longrightarrow>
   \<exists>k'. count_values val i j dn k = Inr k'"
  by (induction dn arbitrary: k) (auto simp: char_at_def)

lemma count_neighbors_returns:
  assumes wf: "wf_crossword c" and keys: "map fst d = variables c" and nc: "node_consistent d"
    and len: "length val = var_length var"
  shows "set ns \<subseteq> set (neighbors c var) \<Longrightarrow> \<exists>k'. count_neighbors c d a var val ns k = Inr k'"
proof (induction ns arbitrary: k)
  case Nil
  then show ?case by simp
next
  case (Cons n ns)
  from Cons.prems have n: "n \<in> set (neighbors c var)" and rest: "set ns \<subseteq> set (neighbors c var)"
    by simp_all
  from neighborsD [OF n] obtain i j where nv: "n \<in> set (variables c)"
    and o: "map_of (overlaps c) (var, n) = Some (i, j)" by blast
  note w = wf_crosswordD [OF wf o]
  from store_lookup [OF keys nc nv] obtain dn where dn: "map_of d n = Some dn"
    "\<forall>w \<in> set dn. length w = var_length n" by blast
  have "\<exists>k1. count_values val i j dn k = Inr k1"
    using len w(4,5) dn(2) by (intro count_values_returns) simp_all
  then obtain k1 where k1: "count_values val i j dn k = Inr k1" ..
  from Cons.IH [OF rest] obtain k2 where "count_neighbors c d a var val ns k1 = Inr k2" by blast
  moreover from Cons.IH [OF rest] obtain k3 where "count_neighbors c d a var val ns k = Inr k3" by blast
  ultimately show ?case using o dn(1) k1 by (simp add: getitem_def)
qed

lemma map_result_returns:
  "\<forall>x \<in> set xs. \<exists>y. f x = Inr y \<Longrightarrow> \<exists>ys. map_result f xs = Inr ys"
  by (induction xs) (auto split: sum.splits)

lemma order_domain_values_returns:
  assumes wf: "wf_crossword c" and keys: "map fst d = variables c" and nc: "node_consistent d"
    and var: "var \<in> set (variables c)"
  shows "\<exists>vals dv. order_domain_values c d var a = Inr vals \<and> map_of d var = Some dv \<and>
     set vals = set dv"
proof -
  from store_lookup [OF keys nc var] obtain dv where dv: "map_of d var = Some dv"
    "\<forall>w \<in> set dv. length w = var_length var" by blast
  have "\<forall>val \<in> set dv. \<exists>k. count_conflicts c d a var val = Inr k"
    unfolding count_conflicts_def
    using count_neighbors_returns [OF wf keys nc, of _ var "neighbors c var" a 0] dv(2) by simp
  from map_result_returns [OF this] obtain ks where
    ks: "map_result (count_conflicts c d a var) dv = Inr ks" ..
  from map_result_Inr [OF ks] have "length ks = length dv"
    by (simp add: list_all2_lengthD)
  then have "map snd (zip ks dv) = dv" by simp
  moreover have "set (map snd (sort_key fst (zip ks dv))) = set (map snd (zip ks dv))"
    by simp
  ultimately have "set (map snd (sort_key fst (zip ks dv))) = set dv" by simp
  with dv(1) ks show ?thesis
    by (simp add: order_domain_values_def getitem_def)
qed

lemma check_neighbors_returns:
  assumes wf: "wf_crossword c" and lm: "lengths_match a" and var: "var \<in> fst ` set a"
  shows "set ns \<subseteq> set (neighbors c var) \<Longrightarrow> \<exists>b. check_neighbors c a var ns = Inr b"
proof (induction ns)
  case Nil
  show ?case by (rule exI [of _ True]) simp
next
  case (Cons n ns)
  from Cons.prems have n: "n \<in> set (neighbors c var)" and rest: "set ns \<subseteq> set (neighbors c var)"
    by simp_all
  from Cons.IH [OF rest] obtain b where b: "check_neighbors c a var ns = Inr b" ..
  show ?case
  proof (cases "n \<in> fst ` set a")
    case False
    with b show ?thesis by simp
  next
    case True
    from neighborsD(2) [OF n] obtain i j where
      o: "map_of (overlaps c) (var, n) = Some (i, j)" by blast
    note w = wf_crosswordD [OF wf o]
    from var obtain wv where wv: "map_of a var = Some wv"
      by (metis domD dom_map_of_conv_image_fst)
    from True obtain wn where wn: "map_of a n = Some wn"
      by (metis domD dom_map_of_conv_image_fst)
    from lm wv have "length wv = var_length var"
      unfolding lengths_match_iff by (fastforce dest: map_of_SomeD)
    moreover from lm wn have "length wn = var_length n"
      unfolding lengths_match_iff by (fastforce dest: map_of_SomeD)
    ultimately show ?thesis
      using True o wv wn w(4,5) b by (auto simp: getitem_def char_at_def)
  qed
qed

lemma check_overlaps_returns:
  assumes wf: "wf_crossword c" and lm: "lengths_match a"
  shows "set vs \<subseteq> fst ` set a \<Longrightarrow> \<exists>b. check_overlaps c a vs = Inr b"
proof (induction vs)
  case Nil
  show ?case by (rule exI [of _ True]) simp
next
  case (Cons v vs)
  then have v: "v \<in> fst ` set a" and rest: "set vs \<subseteq> fst ` set a" by simp_all
  from check_neighbors_returns [OF wf lm v subset_refl]
  obtain b where b: "check_neighbors c a v (neighbors c v) = Inr b" ..
  from Cons.IH [OF rest] obtain b' where "check_overlaps c a vs = Inr b'" ..
  with b show ?case by auto
qed

lemma consistent_returns:
  assumes "wf_crossword c"
  shows "\<exists>b. consistent c a = Inr b"
proof (cases "length (remdups (map snd a)) \<noteq> length a \<or> \<not> lengths_match a")
  case True
  then show ?thesis by (auto simp: consistent_def)
next
  case False
  then have lm: "lengths_match a" by simp
  from check_overlaps_returns [OF assms lm, of "map fst a"]
  obtain b where "check_overlaps c a (map fst a) = Inr b" by auto
  with False show ?thesis by (auto simp: consistent_def)
qed

lemma ac3_loop_returns:
  "wf_crossword c \<Longrightarrow> map fst d = variables c \<Longrightarrow> node_consistent d \<Longrightarrow>
   \<exists>r d'. ac3_loop c d queue = Inr (r, d') \<and> map fst d' = variables c \<and> node_consistent d'"
proof (induction c d queue rule: ac3_loop.induct)
  case (1 c d)
  then show ?case by auto
next
  case (2 c d x y queue)
  note wf = "2.prems"(1) and keys = "2.prems"(2) and nc = "2.prems"(3)
  show ?case
  proof (cases "map_of (overlaps c) (x, y)")
    case None
    then have rv: "revise c d x y = Inr (False, d)" by (rule revise_no_overlap)
    from "2.IH"(2) [OF rv refl _ wf keys nc] rv show ?thesis by simp
  next
    case (Some ij)
    obtain i j where "ij = (i, j)" by (cases ij)
    with Some have o: "map_of (overlaps c) (x, y) = Some (i, j)" by simp
    from revise_wf [OF wf keys nc o] obtain dx dy where
      dx: "map_of d x = Some dx" and dy: "map_of d y = Some dy"
      and rv: "revise c d x y =
        Inr (\<exists>w \<in> set dx. \<not> supported i j dy w, AList.update x (filter (supported i j dy) dx) d)"
      by blast
    let ?d1 = "AList.update x (filter (supported i j dy) dx) d"
    have keys1: "map fst ?d1 = variables c"
      using update_present_keys [OF dx] keys by simp
    have nc1: "node_consistent ?d1"
      using nc dx by (rule node_consistent_update)
    show ?thesis
    proof (cases "\<exists>w \<in> set dx. \<not> supported i j dy w")
      case False
      with rv have rv': "revise c d x y = Inr (False, ?d1)" by simp
      from "2.IH"(2) [OF rv' refl _ wf keys1 nc1] rv' show ?thesis by simp
    next
      case True
      with rv have rv': "revise c d x y = Inr (True, ?d1)" by simp
      have g: "getitem ?d1 x = Inr (filter (supported i j dy) dx)"
        by (simp add: getitem_def update_conv')
      show ?thesis
      proof (cases "filter (supported i j dy) dx = []")
        case e: True
        with rv' g have "ac3_loop c d ((x, y) # queue) = Inr (False, ?d1)" by simp
        with keys1 nc1 show ?thesis by blast
      next
        case ne: False
        from "2.IH"(1) [OF rv' refl _ g ne wf keys1 nc1] rv' g ne show ?thesis by simp
      qed
    qed
  qed
qed

lemma backtrack_returns:
  "wf_crossword c \<Longrightarrow> map fst d = variables c \<Longrightarrow> node_consistent d \<Longrightarrow>
   fst ` set a \<subseteq> set (variables c) \<Longrightarrow> \<exists>res. backtrack c d a = Inr res"
  "wf_crossword c \<Longrightarrow> map fst d = variables c \<Longrightarrow> node_consistent d \<Longrightarrow>
   fst ` set a \<subseteq> set (variables c) \<Longrightarrow> var \<in> set (variables c) \<Longrightarrow> var \<notin> fst ` set a \<Longrightarrow>
   \<exists>res. try_values c var vals d a = Inr res"
proof (induction c d a and c var vals d a rule: backtrack_try_values.induct)
  case (1 c d a)
  note wf = "1.prems"(1) and keys = "1.prems"(2) and nc = "1.prems"(3) and sub = "1.prems"(4)
  show ?case
  proof (cases "assignment_complete c a")
    case True
    then show ?thesis by (simp add: backtrack.simps)
  next
    case False
    with sub have "set (variables c) - fst ` set a \<noteq> {}"
      by (auto simp: assignment_complete_def)
    then have ne: "unassigned c a \<noteq> []"
      by (auto simp: unassigned_def filter_empty_conv)
    have dk: "set (variables c) \<subseteq> fst ` set d"
      using keys by (metis set_map subset_refl)
    from select_least [OF dk ne] obtain var where
      sel: "select_unassigned_variable c d a = Inr var" by blast
    note v = select_unassigned [OF sel]
    from order_domain_values_returns [OF wf keys nc, of var a] v obtain vals where
      ord: "order_domain_values c d var a = Inr vals" by blast
    from "1.IH" [OF False sel ord wf keys nc sub] v obtain res where
      "try_values c var vals d a = Inr res" by blast
    with False sel ord have "backtrack c d a = Inr res" by (simp add: backtrack.simps)
    then show ?thesis ..
  qed
next
  case (2 c var d a)
  then show ?case by simp
next
  case (3 c var val rest d a)
  note wf = "3.prems"(1) and keys = "3.prems"(2) and nc = "3.prems"(3) and sub = "3.prems"(4)
    and var = "3.prems"(5) and fresh = "3.prems"(6)
  let ?a1 = "AList.update var val a"
  from consistent_returns [OF wf] obtain ok where ok: "consistent c ?a1 = Inr ok" ..
  have del: "delitem ?a1 var = Inr a"
    using fresh by (simp add: delitem_update delete_update_fresh)
  have sub1: "fst ` set ?a1 \<subseteq> set (variables c)"
    using sub var by (simp add: keys_update)
  show ?case
  proof (cases ok)
    case False
    from "3.IH"(3) [OF ok False del wf keys nc sub var fresh] ok False del
    show ?thesis by simp
  next
    case True
    from "3.IH"(1) [OF ok True wf keys nc sub1] obtain result d2 a2 where
      bt: "backtrack c d ?a1 = Inr (result, d2, a2)" by (metis prod_cases3)
    show ?thesis
    proof (cases "truthy result")
      case t: True
      with ok True bt show ?thesis by simp
    next
      case f: False
      from backtrack_restores [OF bt] f have d2: "d2 = d" and a2: "a2 = ?a1" by simp_all
      from del a2 have del2: "delitem a2 var = Inr a" by simp
      from "3.IH"(2) [OF ok True bt refl refl f del2 wf _ _ sub var fresh] keys nc d2
      obtain res where "try_values c var rest d2 a = Inr res" by blast
      with ok True bt f del2 have "try_values c var (val # rest) d a = Inr res" by simp
      then show ?thesis ..
    qed
  qed
qed

lemma enforce_node_consistency_store:
  assumes "distinct (variables c)"
  shows "\<exists>d1. enforce_node_consistency (init_domains c) = Inr d1 \<and> map fst d1 = variables c \<and>
     node_consistent d1"
proof -
  have dk: "distinct (map fst (init_domains c))"
    using assms by (simp add: init_domains_def comp_def)
  let ?d1 = "map (\<lambda>(v, ws). (v, filter (\<lambda>w. length w = var_length v) ws)) (init_domains c)"
  from enforce_node_consistency_spec [OF dk]
  have e: "enforce_node_consistency (init_domains c) = Inr ?d1" .
  have "map fst ?d1 = variables c"
    by (simp add: init_domains_def comp_def)
  moreover have "node_consistent ?d1"
    unfolding node_consistent_def by auto
  ultimately show ?thesis using e by blast
qed

lemma solve_returns:
  assumes "wf_crossword c" and "distinct (variables c)"
  shows "\<exists>result. solve c = Inr result"
proof -
  from enforce_node_consistency_store [OF assms(2)] obtain d1 where
    e: "enforce_node_consistency (init_domains c) = Inr d1"
    and k1: "map fst d1 = variables c" and n1: "node_consistent d1" by blast
  from ac3_loop_returns [OF assms(1) k1 n1, of "default_arcs c d1"] obtain r d2 where
    a: "ac3 c d1 None = Inr (r, d2)" and k2: "map fst d2 = variables c"
    and n2: "node_consistent d2"
    by (auto simp: ac3_def)
  from backtrack_returns(1) [OF assms(1) k2 n2, of "[]"] obtain result d3 a3 where
    "backtrack c d2 [] = Inr (result, d3, a3)" by (auto simp: )
  with e a show ?thesis by (simp add: solve_def solve_traced_def)
qed

section \<open>The claims\<close>

subsection \<open>Empty puzzles and complete assignments\<close>

text \<open>
  C10. For a puzzle whose variable set is empty, \<open>solve\<close> returns the empty assignment and
  not None; and \<open>backtrack\<close>, called on a complete assignment, returns that assignment at
  once, whatever the domain store is (no variable is selected: the result does not depend
  on \<open>select_unassigned_variable\<close>).
\<close>

theorem solve_empty_backtrack_complete:
  "(variables c = [] \<longrightarrow> solve c = Inr (Some [])) \<and>
   (assignment_complete c a \<longrightarrow> backtrack c d a = Inr (Some a, d, a))"
  by (simp add: solve_def solve_traced_def init_domains_def enforce_node_consistency_def
      ac3_def default_arcs_def assignment_complete_def backtrack.simps)

theorem solve_empty_backtrack_complete_witness:
  "variables empty_puzzle = [] \<and> solve empty_puzzle = Inr (Some []) \<and>
   assignment_complete (puzzle [''CAT''])
     [(slot_top, ''CAR''), (slot_down, ''CAT''), (slot_bottom, ''TAR'')] \<and>
   backtrack (puzzle [''CAT'']) []
     [(slot_top, ''CAR''), (slot_down, ''CAT''), (slot_bottom, ''TAR'')]
   = Inr (Some [(slot_top, ''CAR''), (slot_down, ''CAT''), (slot_bottom, ''TAR'')], [],
          [(slot_top, ''CAR''), (slot_down, ''CAT''), (slot_bottom, ''TAR'')])"
proof -
  have v: "variables empty_puzzle = []"
    by (simp add: empty_puzzle_def)
  have k: "assignment_complete (puzzle [''CAT''])
     [(slot_top, ''CAR''), (slot_down, ''CAT''), (slot_bottom, ''TAR'')]"
    by (simp add: assignment_complete_def puzzle_def)
  from v k
    solve_empty_backtrack_complete [where c = empty_puzzle]
    solve_empty_backtrack_complete [where c = "puzzle [''CAT'']" and d = "[]"
      and a = "[(slot_top, ''CAR''), (slot_down, ''CAT''), (slot_bottom, ''TAR'')]"]
  show ?thesis by simp
qed

subsection \<open>Node consistency\<close>

text \<open>
  C7. \<open>enforce_node_consistency\<close> raises nothing and leaves, for every variable, exactly
  the words of its initial domain whose length is the declared length of the variable
  (in their order): no word of another length stays, no word of the right length goes.
  The domain store is a dictionary, so its keys are distinct.
\<close>

theorem enforce_node_consistency_exact:
  assumes "distinct (map fst d)"
  shows "enforce_node_consistency d =
     Inr (map (\<lambda>(v, ws). (v, filter (\<lambda>w. length w = var_length v) ws)) d)"
  using assms by (rule enforce_node_consistency_spec)

theorem enforce_node_consistency_exact_witness:
  "distinct (map fst (init_domains (puzzle [''CAT'', ''AB'', ''TAR'']))) \<and>
   enforce_node_consistency (init_domains (puzzle [''CAT'', ''AB'', ''TAR''])) =
     Inr [(slot_top, [''CAT'', ''TAR'']), (slot_down, [''CAT'', ''TAR'']),
          (slot_bottom, [''CAT'', ''TAR''])]"
proof -
  have h: "distinct (map fst (init_domains (puzzle [''CAT'', ''AB'', ''TAR''])))"
    by (simp add: init_domains_def example_defs)
  from h enforce_node_consistency_exact [OF h] show ?thesis
    by (simp add: init_domains_def example_defs)
qed

subsection \<open>Revision\<close>

text \<open>
  C6. Let \<open>x\<close> and \<open>y\<close> be two different variables with the recorded overlap \<open>(i, j)\<close>,
  both in the domain store, all candidates long enough for the overlap indices. Then
  \<open>revise(x, y)\<close> removes from the domain of \<open>x\<close> exactly the words that no candidate of
  \<open>y\<close> supports, keeps the other words of \<open>x\<close> and every other entry of the store, and
  returns True iff some word was removed. With no recorded overlap it changes nothing and
  returns False.
\<close>

theorem revise_exact:
  "(map_of (overlaps c) (x, y) = None \<longrightarrow> revise c d x y = Inr (False, d)) \<and>
   (map_of (overlaps c) (x, y) = Some (i, j) \<and> x \<noteq> y \<and>
    map_of d x = Some dx \<and> map_of d y = Some dy \<and>
    (\<forall>w \<in> set dx. i < length w) \<and> (\<forall>w' \<in> set dy. j < length w') \<longrightarrow>
      revise c d x y =
        Inr (\<exists>w \<in> set dx. \<not> supported i j dy w,
             AList.update x (filter (supported i j dy) dx) d))"
  using revise_overlap [of c x y i j d dx dy] revise_no_overlap [of c x y d] by blast

theorem revise_exact_witness:
  "map_of (overlaps (puzzle [])) (slot_top, slot_bottom) = None \<and>
   revise (puzzle [])
     [(slot_top, [''CAT'']), (slot_down, [''CAT'', ''ART'']), (slot_bottom, [''TAR'', ''CAR''])]
     slot_top slot_bottom =
     Inr (False,
       [(slot_top, [''CAT'']), (slot_down, [''CAT'', ''ART'']), (slot_bottom, [''TAR'', ''CAR''])]) \<and>
   map_of (overlaps (puzzle [])) (slot_bottom, slot_down) = Some (0, 2) \<and>
   revise (puzzle [])
     [(slot_top, [''CAT'']), (slot_down, [''CAT'', ''ART'']), (slot_bottom, [''TAR'', ''CAR''])]
     slot_bottom slot_down =
     Inr (True,
       [(slot_top, [''CAT'']), (slot_down, [''CAT'', ''ART'']), (slot_bottom, [''TAR''])])"
proof -
  let ?d = "[(slot_top, [''CAT'']), (slot_down, [''CAT'', ''ART'']),
             (slot_bottom, [''TAR'', ''CAR''])]"
  have n: "map_of (overlaps (puzzle [])) (slot_top, slot_bottom) = None"
    by (simp add: example_defs)
  have o: "map_of (overlaps (puzzle [])) (slot_bottom, slot_down) = Some (0, 2)"
    by (simp add: example_defs)
  have p: "slot_bottom \<noteq> slot_down \<and>
      map_of ?d slot_bottom = Some [''TAR'', ''CAR''] \<and>
      map_of ?d slot_down = Some [''CAT'', ''ART''] \<and>
      (\<forall>w \<in> set [''TAR'', ''CAR'']. 0 < length w) \<and>
      (\<forall>w' \<in> set [''CAT'', ''ART'']. 2 < length w')"
    by (simp add: example_defs)
  have s: "supported 0 2 [''CAT'', ''ART''] ''TAR'' \<and> \<not> supported 0 2 [''CAT'', ''ART''] ''CAR''"
    by (simp add: supported_def)
  have u: "AList.update slot_bottom [''TAR''] ?d =
      [(slot_top, [''CAT'']), (slot_down, [''CAT'', ''ART'']), (slot_bottom, [''TAR''])]"
    by (simp add: example_defs)
  from n o p s u
    revise_exact [where c = "puzzle []" and d = ?d and x = slot_top and y = slot_bottom]
    revise_exact [where c = "puzzle []" and d = ?d and x = slot_bottom and y = slot_down
      and i = 0 and j = 2 and dx = "[''TAR'', ''CAR'']" and dy = "[''CAT'', ''ART'']"]
  show ?thesis by simp
qed

subsection \<open>Backtracking leaves no trace\<close>

text \<open>
  C5. A call of \<open>backtrack\<close> that returns None leaves the assignment exactly as it was
  when the call began, and so does the loop over the candidate values of a variable that
  was unassigned when the loop began; and \<open>backtrack\<close> never changes the domain store,
  whatever it returns. (\<open>consistent\<close>, \<open>order_domain_values\<close> and
  \<open>select_unassigned_variable\<close> write to nothing, and are functions of the store.)
\<close>

theorem backtrack_reversible:
  "(backtrack c d a = Inr (r, d', a') \<longrightarrow> d' = d \<and> (r = None \<longrightarrow> a' = a)) \<and>
   (var \<notin> fst ` set a \<and> try_values c var vals d a = Inr (r, d', a') \<longrightarrow>
      d' = d \<and> (r = None \<longrightarrow> a' = a))"
  using backtrack_restores [of c d a r d' a'] try_values_restores [of c var vals d a r d' a']
  by (auto simp: truthy_def)

theorem backtrack_reversible_witness:
  "backtrack (puzzle [])
     [(slot_top, [''CAT'']), (slot_down, [''CAT'']), (slot_bottom, [''CAT''])] []
   = Inr (None, [(slot_top, [''CAT'']), (slot_down, [''CAT'']), (slot_bottom, [''CAT''])], []) \<and>
   slot_down \<notin> fst ` set ([] :: assignment) \<and>
   try_values (puzzle []) slot_down [''CAT'']
     [(slot_top, [''CAT'']), (slot_down, [''CAT'']), (slot_bottom, [''CAT''])] []
   = Inr (None, [(slot_top, [''CAT'']), (slot_down, [''CAT'']), (slot_bottom, [''CAT''])], [])"
proof -
  let ?d = "[(slot_top, [''CAT'']), (slot_down, [''CAT'']), (slot_bottom, [''CAT''])]"
  have b: "backtrack (puzzle []) ?d [] = Inr (None, ?d, [])"
    by code_simp
  have t: "try_values (puzzle []) slot_down [''CAT''] ?d [] = Inr (None, ?d, [])"
    by code_simp
  from b t
    backtrack_reversible [where c = "puzzle []" and d = ?d and a = "[]" and var = slot_down
      and vals = "[''CAT'']" and r = None and d' = ?d and a' = "[]"]
  show ?thesis by simp
qed

subsection \<open>Termination of arc consistency\<close>

text \<open>
  C8. The worklist loop of \<open>ac3\<close> ends from every domain store and every arc list: every
  argument is in the domain of the recursion of \<open>ac3_loop\<close>. The reason is the one given:
  a revision that returns False leaves the store as it was and enqueues nothing, a
  revision that returns True strictly shrinks the total size of the domains, and an
  emptied domain ends the loop at once.
\<close>

theorem ac3_terminates:
  "ac3_loop_dom (c, d, queue) \<and>
   (revise c d x y = Inr (revised, d') \<longrightarrow>
      (if revised then domains_size d' < domains_size d
       else d' = d \<and> ac3_loop c d ((x, y) # queue) = ac3_loop c d queue)) \<and>
   (revise c d x y = Inr (True, d') \<and> getitem d' x = Inr [] \<longrightarrow>
      ac3_loop c d ((x, y) # queue) = Inr (False, d'))"
  using ac3_loop_total revise_size [of c d x y revised d'] by auto

theorem ac3_terminates_witness:
  "revise (puzzle [])
     [(slot_top, [''CAT'']), (slot_down, [''CAT'']), (slot_bottom, [''CAT''])]
     slot_bottom slot_down
   = Inr (True, [(slot_top, [''CAT'']), (slot_down, [''CAT'']), (slot_bottom, [])]) \<and>
   domains_size [(slot_top, [''CAT'']), (slot_down, [''CAT'']), (slot_bottom, [])]
   < domains_size [(slot_top, [''CAT'']), (slot_down, [''CAT'']), (slot_bottom, [''CAT''])] \<and>
   ac3_loop (puzzle [])
     [(slot_top, [''CAT'']), (slot_down, [''CAT'']), (slot_bottom, [''CAT''])]
     [(slot_bottom, slot_down), (slot_top, slot_down)]
   = Inr (False, [(slot_top, [''CAT'']), (slot_down, [''CAT'']), (slot_bottom, [])])"
proof -
  let ?d = "[(slot_top, [''CAT'']), (slot_down, [''CAT'']), (slot_bottom, [''CAT''])]"
  let ?d' = "[(slot_top, [''CAT'']), (slot_down, [''CAT'']), (slot_bottom, [])]"
  have r: "revise (puzzle []) ?d slot_bottom slot_down = Inr (True, ?d')"
    by code_simp
  have g: "getitem ?d' slot_bottom = Inr []"
    by code_simp
  from r g
    ac3_terminates [where c = "puzzle []" and d = ?d and x = slot_bottom and y = slot_down
      and revised = True and d' = ?d' and queue = "[(slot_top, slot_down)]"]
  show ?thesis by simp
qed

subsection \<open>What \<open>solve\<close> does when propagation fails\<close>

text \<open>
  C1, as stated, does not hold: \<open>solve\<close> drops the result of \<open>ac3\<close> and calls
  \<open>backtrack\<close> in every case. With the vocabulary CAT, CAR the down slot loses both its
  words against the bottom slot, \<open>ac3\<close> returns False, and \<open>solve\<close> goes on to call
  \<open>backtrack\<close>.
\<close>

theorem solve_searches_after_failed_ac3:
  "enforce_node_consistency (init_domains (puzzle [''CAT'', ''CAR''])) =
     Inr [(slot_top, [''CAT'', ''CAR'']), (slot_down, [''CAT'', ''CAR'']),
          (slot_bottom, [''CAT'', ''CAR''])] \<and>
   ac3 (puzzle [''CAT'', ''CAR''])
     [(slot_top, [''CAT'', ''CAR'']), (slot_down, [''CAT'', ''CAR'']),
      (slot_bottom, [''CAT'', ''CAR''])] None =
     Inr (False, [(slot_top, [''CAT'', ''CAR'']), (slot_down, []),
                  (slot_bottom, [''CAT'', ''CAR''])]) \<and>
   Call_backtrack \<in> set (fst (solve_traced (puzzle [''CAT'', ''CAR''])))"
  by code_simp

text \<open>
  C1, amended. If \<open>ac3\<close> returns False, \<open>solve\<close> still calls \<open>backtrack\<close>, on the empty
  assignment, and the result of \<open>solve\<close> is None: some variable has an empty domain,
  the selection takes a variable with the fewest candidates, and the loop over its
  candidates has nothing to try.
\<close>

theorem solve_failed_ac3:
  assumes "enforce_node_consistency (init_domains c) = Inr d1"
    and "ac3 c d1 None = Inr (False, d2)"
  shows "fst (solve_traced c) = [Call_enforce_node_consistency, Call_ac3, Call_backtrack] \<and>
     backtrack c d2 [] = Inr (None, d2, []) \<and> solve c = Inr None"
proof -
  have "solve_traced c = ([Call_enforce_node_consistency, Call_ac3, Call_backtrack], Inr None)"
    using assms by (rule solve_traced_failed_ac3)
  moreover have "backtrack c d2 [] = Inr (None, d2, [])"
    using assms by (rule backtrack_after_failed_ac3)
  ultimately show ?thesis by (simp add: solve_def)
qed

theorem solve_failed_ac3_witness:
  "enforce_node_consistency (init_domains (puzzle [''CAT'', ''CAR''])) =
     Inr [(slot_top, [''CAT'', ''CAR'']), (slot_down, [''CAT'', ''CAR'']),
          (slot_bottom, [''CAT'', ''CAR''])] \<and>
   ac3 (puzzle [''CAT'', ''CAR''])
     [(slot_top, [''CAT'', ''CAR'']), (slot_down, [''CAT'', ''CAR'']),
      (slot_bottom, [''CAT'', ''CAR''])] None =
     Inr (False, [(slot_top, [''CAT'', ''CAR'']), (slot_down, []),
                  (slot_bottom, [''CAT'', ''CAR''])]) \<and>
   fst (solve_traced (puzzle [''CAT'', ''CAR''])) =
     [Call_enforce_node_consistency, Call_ac3, Call_backtrack] \<and>
   solve (puzzle [''CAT'', ''CAR'']) = Inr None"
proof -
  have n: "enforce_node_consistency (init_domains (puzzle [''CAT'', ''CAR''])) =
     Inr [(slot_top, [''CAT'', ''CAR'']), (slot_down, [''CAT'', ''CAR'']),
          (slot_bottom, [''CAT'', ''CAR''])]"
    by code_simp
  have a: "ac3 (puzzle [''CAT'', ''CAR''])
     [(slot_top, [''CAT'', ''CAR'']), (slot_down, [''CAT'', ''CAR'']),
      (slot_bottom, [''CAT'', ''CAR''])] None =
     Inr (False, [(slot_top, [''CAT'', ''CAR'']), (slot_down, []),
                  (slot_bottom, [''CAT'', ''CAR''])])"
    by code_simp
  from n a solve_failed_ac3 [OF n a] show ?thesis by simp
qed

subsection \<open>The result of \<open>ac3\<close> and empty domains\<close>

text \<open>
  C3 says that \<open>ac3\<close> returns True iff every domain is non-empty when the queue drains,
  and so does the docstring of \<open>ac3\<close>. The code looks at a domain only after a revision
  has removed a word from it. With the only word AB no slot of length 3 keeps a candidate
  after node consistency, no revision removes anything, and \<open>ac3\<close> returns True on a
  store whose domains are all empty.
\<close>

theorem ac3_true_on_empty_domains:
  "enforce_node_consistency (init_domains (puzzle [''AB''])) =
     Inr [(slot_top, []), (slot_down, []), (slot_bottom, [])] \<and>
   ac3 (puzzle [''AB'']) [(slot_top, []), (slot_down, []), (slot_bottom, [])] None =
     Inr (True, [(slot_top, []), (slot_down, []), (slot_bottom, [])])"
  by code_simp

subsection \<open>The solution is complete and consistent\<close>

text \<open>
  C2. On a well-formed puzzle with distinct variables \<open>solve\<close> raises nothing: it returns
  None or an assignment. And an assignment that \<open>solve\<close> returns, on any puzzle, is
  complete and consistent: its keys are the variables of the puzzle, each once; the
  assigned words are pairwise distinct; every word has the declared length of its
  variable; and two assigned variables with a recorded overlap \<open>(i, j)\<close> carry the same
  letter there. So \<open>solve\<close> never returns a partial assignment.
\<close>

theorem solve_complete_consistent:
  "(wf_crossword c \<and> distinct (variables c) \<longrightarrow> (\<exists>result. solve c = Inr result)) \<and>
   (solve c = Inr (Some a) \<longrightarrow>
      set (map fst a) = set (variables c) \<and> distinct (map fst a) \<and>
      distinct (map snd a) \<and>
      (\<forall>(v, w) \<in> set a. length w = var_length v) \<and>
      (\<forall>x y i j wx wy.
         map_of a x = Some wx \<and> map_of a y = Some wy \<and> x \<noteq> y \<and>
         map_of (overlaps c) (x, y) = Some (i, j) \<longrightarrow>
         i < length wx \<and> j < length wy \<and> wx ! i = wy ! j))"
proof (intro conjI impI)
  assume "wf_crossword c \<and> distinct (variables c)"
  then show "\<exists>result. solve c = Inr result"
    using solve_returns [of c] by simp
next
  assume s: "solve c = Inr (Some a)"
  from solve_Some [OF s] have compl: "set (map fst a) = set (variables c)"
    and keys: "distinct (map fst a)" and cons: "consistent c a = Inr True"
    by (simp_all add: assignment_complete_def)
  show "set (map fst a) = set (variables c)" by (rule compl)
  show "distinct (map fst a)" by (rule keys)
  show "distinct (map snd a)" by (rule consistent_True(1) [OF cons])
  show "\<forall>(v, w) \<in> set a. length w = var_length v" by (rule consistent_True(2) [OF cons])
  show "\<forall>x y i j wx wy.
         map_of a x = Some wx \<and> map_of a y = Some wy \<and> x \<noteq> y \<and>
         map_of (overlaps c) (x, y) = Some (i, j) \<longrightarrow>
         i < length wx \<and> j < length wy \<and> wx ! i = wy ! j"
  proof (intro allI impI)
    fix x y i j wx wy
    assume h: "map_of a x = Some wx \<and> map_of a y = Some wy \<and> x \<noteq> y \<and>
        map_of (overlaps c) (x, y) = Some (i, j)"
    then have mx: "map_of a x = Some wx" and my: "map_of a y = Some wy" and ne: "x \<noteq> y"
      and o: "map_of (overlaps c) (x, y) = Some (i, j)" by simp_all
    from mx have x: "x \<in> fst ` set a"
      by (metis domI dom_map_of_conv_image_fst)
    from my have y: "y \<in> fst ` set a"
      by (metis domI dom_map_of_conv_image_fst)
    from y compl have yv: "y \<in> set (variables c)" by simp
    have "\<exists>wx' wy'. map_of a x = Some wx' \<and> map_of a y = Some wy' \<and>
          i < length wx' \<and> j < length wy' \<and> wx' ! i = wy' ! j"
      using cons x y yv ne o by (rule consistent_True(3))
    then show "i < length wx \<and> j < length wy \<and> wx ! i = wy ! j"
      using mx my by simp
  qed
qed

theorem solve_complete_consistent_witness:
  "solve (puzzle [''CAT'', ''CAR'', ''ART'', ''TAR'']) =
     Inr (Some [(slot_bottom, ''TAR''), (slot_down, ''CAT''), (slot_top, ''CAR'')]) \<and>
   set (map fst [(slot_bottom, ''TAR''), (slot_down, ''CAT''), (slot_top, ''CAR'')]) =
     set (variables (puzzle [''CAT'', ''CAR'', ''ART'', ''TAR''])) \<and>
   distinct (map snd [(slot_bottom, ''TAR''), (slot_down, ''CAT''), (slot_top, ''CAR'')]) \<and>
   length ''TAR'' = var_length slot_bottom \<and>
   ''CAT'' ! 0 = ''CAR'' ! 0 \<and> ''CAT'' ! 2 = ''TAR'' ! 0 \<and>
   wf_crossword (puzzle [''AB'']) \<and> distinct (variables (puzzle [''AB''])) \<and>
   solve (puzzle [''AB'']) = Inr None"
proof -
  let ?a = "[(slot_bottom, ''TAR''), (slot_down, ''CAT''), (slot_top, ''CAR'')]"
  have h: "solve (puzzle [''CAT'', ''CAR'', ''ART'', ''TAR'']) = Inr (Some ?a)"
    by code_simp
  note t = solve_complete_consistent [where c = "puzzle [''CAT'', ''CAR'', ''ART'', ''TAR'']"
      and a = ?a]
  from t h have keys: "set (map fst ?a) = set (variables (puzzle [''CAT'', ''CAR'', ''ART'', ''TAR'']))"
    and vals: "distinct (map snd ?a)"
    and len: "\<forall>(v, w) \<in> set ?a. length w = var_length v"
    and ov: "\<forall>x y i j wx wy.
        map_of ?a x = Some wx \<and> map_of ?a y = Some wy \<and> x \<noteq> y \<and>
        map_of (overlaps (puzzle [''CAT'', ''CAR'', ''ART'', ''TAR''])) (x, y) = Some (i, j) \<longrightarrow>
        i < length wx \<and> j < length wy \<and> wx ! i = wy ! j"
    by simp_all
  have top: "map_of ?a slot_down = Some ''CAT'' \<and> map_of ?a slot_top = Some ''CAR'' \<and>
      slot_down \<noteq> slot_top \<and>
      map_of (overlaps (puzzle [''CAT'', ''CAR'', ''ART'', ''TAR''])) (slot_down, slot_top) = Some (0, 0)"
    by (simp add: example_defs)
  have bottom: "map_of ?a slot_down = Some ''CAT'' \<and> map_of ?a slot_bottom = Some ''TAR'' \<and>
      slot_down \<noteq> slot_bottom \<and>
      map_of (overlaps (puzzle [''CAT'', ''CAR'', ''ART'', ''TAR''])) (slot_down, slot_bottom) = Some (2, 0)"
    by (simp add: example_defs)
  have wf: "wf_crossword (puzzle [''AB''])"
    by (simp add: wf_crossword_def example_defs)
  have dv: "distinct (variables (puzzle [''AB'']))"
    by (simp add: example_defs)
  have n: "solve (puzzle [''AB'']) = Inr None"
    by code_simp
  from ov top have "''CAT'' ! 0 = ''CAR'' ! 0" by blast
  moreover from ov bottom have "''CAT'' ! 2 = ''TAR'' ! 0" by blast
  moreover from len have "length ''TAR'' = var_length slot_bottom" by simp
  ultimately show ?thesis using h keys vals wf dv n by simp
qed

subsection \<open>The order of the candidate values\<close>

text \<open>
  C9. On a well-formed puzzle and a node consistent store keyed by the variables,
  \<open>order_domain_values(var, assignment)\<close> returns a list for every variable of the
  puzzle. Whenever it returns, its result holds exactly the words of the domain of
  \<open>var\<close> (each as often as the domain has it), in ascending order of their number of
  conflicts; and the number that \<open>count_conflicts\<close> computes for a word is the number of
  its conflict pairs. The function reads the store and the assignment and returns a new
  list. The variables of the puzzle are distinct and each domain, being a set, lists a
  word once.
\<close>

theorem order_domain_values_sorted:
  "(wf_crossword c \<and> map fst d = variables c \<and> node_consistent d \<and> var \<in> set (variables c)
      \<longrightarrow> (\<exists>vals. order_domain_values c d var a = Inr vals)) \<and>
   (distinct (variables c) \<and> (\<forall>(v, ws) \<in> set d. distinct ws) \<longrightarrow>
      (count_conflicts c d a var w = Inr k \<longrightarrow> k = card (conflict_pairs c d a var w)) \<and>
      (order_domain_values c d var a = Inr vals \<longrightarrow>
         (\<exists>dv. map_of d var = Some dv \<and> mset vals = mset dv \<and>
            sorted (map (\<lambda>w. card (conflict_pairs c d a var w)) vals))))"
proof (intro conjI impI)
  assume "wf_crossword c \<and> map fst d = variables c \<and> node_consistent d \<and>
    var \<in> set (variables c)"
  then show "\<exists>vals. order_domain_values c d var a = Inr vals"
    using order_domain_values_returns [of c d var a] by blast
next
  assume h: "distinct (variables c) \<and> (\<forall>(v, ws) \<in> set d. distinct ws)"
    and k: "count_conflicts c d a var w = Inr k"
  then show "k = card (conflict_pairs c d a var w)"
    using count_conflicts_eq [of c d a var w k] by simp
next
  assume h: "distinct (variables c) \<and> (\<forall>(v, ws) \<in> set d. distinct ws)"
    and o: "order_domain_values c d var a = Inr vals"
  then show "\<exists>dv. map_of d var = Some dv \<and> mset vals = mset dv \<and>
            sorted (map (\<lambda>w. card (conflict_pairs c d a var w)) vals)"
    using order_domain_values_spec [of c d var a vals] by simp
qed

theorem order_domain_values_sorted_witness:
  "order_domain_values (puzzle [])
     [(slot_top, [''CAT'', ''ART'', ''TAR'']), (slot_down, [''TAR'', ''CAT'', ''ART'']),
      (slot_bottom, [''TAR'', ''CAR'', ''ART''])] slot_down [] =
     Inr [''CAT'', ''ART'', ''TAR''] \<and>
   count_conflicts (puzzle [])
     [(slot_top, [''CAT'', ''ART'', ''TAR'']), (slot_down, [''TAR'', ''CAT'', ''ART'']),
      (slot_bottom, [''TAR'', ''CAR'', ''ART''])] [] slot_down ''TAR'' = Inr 5 \<and>
   card (conflict_pairs (puzzle [])
     [(slot_top, [''CAT'', ''ART'', ''TAR'']), (slot_down, [''TAR'', ''CAT'', ''ART'']),
      (slot_bottom, [''TAR'', ''CAR'', ''ART''])] [] slot_down ''TAR'') = 5 \<and>
   mset [''CAT'', ''ART'', ''TAR''] = mset [''TAR'', ''CAT'', ''ART''] \<and>
   sorted (map (\<lambda>w. card (conflict_pairs (puzzle [])
     [(slot_top, [''CAT'', ''ART'', ''TAR'']), (slot_down, [''TAR'', ''CAT'', ''ART'']),
      (slot_bottom, [''TAR'', ''CAR'', ''ART''])] [] slot_down w)) [''CAT'', ''ART'', ''TAR''])"
proof -
  let ?d = "[(slot_top, [''CAT'', ''ART'', ''TAR'']), (slot_down, [''TAR'', ''CAT'', ''ART'']),
      (slot_bottom, [''TAR'', ''CAR'', ''ART''])]"
  have h: "order_domain_values (puzzle []) ?d slot_down [] = Inr [''CAT'', ''ART'', ''TAR'']"
    by code_simp
  have k: "count_conflicts (puzzle []) ?d [] slot_down ''TAR'' = Inr 5"
    by code_simp
  have wf: "wf_crossword (puzzle []) \<and> map fst ?d = variables (puzzle []) \<and>
      node_consistent ?d \<and> slot_down \<in> set (variables (puzzle []))"
    by (simp add: wf_crossword_def node_consistent_def example_defs)
  have v: "distinct (variables (puzzle []))"
    by (simp add: example_defs)
  have s: "\<forall>(v, ws) \<in> set ?d. distinct ws"
    by simp
  have dv: "map_of ?d slot_down = Some [''TAR'', ''CAT'', ''ART'']"
    by (simp add: example_defs)
  from order_domain_values_sorted [where c = "puzzle []" and d = ?d and var = slot_down
      and a = "[]" and w = "''TAR''" and k = 5 and vals = "[''CAT'', ''ART'', ''TAR'']"]
    wf v s h k dv
  show ?thesis by auto
qed

subsection \<open>The fixpoint of arc consistency\<close>

text \<open>
  C4. Let the puzzle be well formed and let the store hold a node consistent domain for
  each variable, as it does when \<open>solve\<close> calls \<open>ac3\<close>. If \<open>ac3\<close>, run with the default
  arcs, returns True, then for every ordered pair \<open>(x, y)\<close> with a recorded overlap
  \<open>(i, j)\<close> every remaining candidate of \<open>x\<close> agrees at the overlap with some remaining
  candidate of \<open>y\<close>, and \<open>revise(x, y)\<close> on the resulting store removes nothing and returns
  False.
\<close>

theorem ac3_arc_consistent:
  assumes "wf_crossword c" and "map fst d = variables c" and "node_consistent d"
    and "ac3 c d None = Inr (True, d')"
    and "map_of (overlaps c) (x, y) = Some (i, j)"
  shows "(\<exists>dx dy. map_of d' x = Some dx \<and> map_of d' y = Some dy \<and>
            (\<forall>w \<in> set dx. \<exists>w' \<in> set dy. w ! i = w' ! j)) \<and>
         revise c d' x y = Inr (False, d')"
  using ac3_fixpoint [OF assms] unfolding arc_ok_def supported_def by simp

theorem ac3_arc_consistent_witness:
  "ac3 (puzzle [])
     [(slot_top, [''CAT'', ''CAR'', ''ART'', ''TAR'']),
      (slot_down, [''CAT'', ''CAR'', ''ART'', ''TAR'']),
      (slot_bottom, [''CAT'', ''CAR'', ''ART'', ''TAR''])] None =
     Inr (True, [(slot_top, [''CAT'', ''CAR'', ''ART'']), (slot_down, [''CAT'', ''ART'']),
                 (slot_bottom, [''TAR''])]) \<and>
   ''CAT'' ! 2 = ''TAR'' ! 0 \<and> ''ART'' ! 2 = ''TAR'' ! 0 \<and>
   revise (puzzle [])
     [(slot_top, [''CAT'', ''CAR'', ''ART'']), (slot_down, [''CAT'', ''ART'']),
      (slot_bottom, [''TAR''])] slot_down slot_bottom =
     Inr (False, [(slot_top, [''CAT'', ''CAR'', ''ART'']), (slot_down, [''CAT'', ''ART'']),
                  (slot_bottom, [''TAR''])])"
proof -
  let ?d = "[(slot_top, [''CAT'', ''CAR'', ''ART'', ''TAR'']),
      (slot_down, [''CAT'', ''CAR'', ''ART'', ''TAR'']),
      (slot_bottom, [''CAT'', ''CAR'', ''ART'', ''TAR''])]"
  let ?d' = "[(slot_top, [''CAT'', ''CAR'', ''ART'']), (slot_down, [''CAT'', ''ART'']),
                 (slot_bottom, [''TAR''])]"
  have wf: "wf_crossword (puzzle [])"
    by (simp add: wf_crossword_def example_defs)
  have keys: "map fst ?d = variables (puzzle [])"
    by (simp add: example_defs)
  have nc: "node_consistent ?d"
    by (simp add: node_consistent_def example_defs)
  have res: "ac3 (puzzle []) ?d None = Inr (True, ?d')"
    by code_simp
  have o: "map_of (overlaps (puzzle [])) (slot_down, slot_bottom) = Some (2, 0)"
    by (simp add: example_defs)
  have dx: "map_of ?d' slot_down = Some [''CAT'', ''ART'']"
    and dy: "map_of ?d' slot_bottom = Some [''TAR'']"
    by (simp_all add: example_defs)
  from ac3_arc_consistent [OF wf keys nc res o] dx dy res show ?thesis
    by simp
qed

end
